theory Spec2Isabelle
  imports Complex_Main "HOL-Library.AList" "HOL-Library.Sublist"
begin

section \<open>Event records\<close>

text \<open>
  The aggregation module \<^verbatim>\<open>aggregate.py\<close> reads log entries as open dictionaries through
  \<^verbatim>\<open>.get\<close>. Each key the module reads becomes an optional field of a record: \<open>None\<close> is an
  absent key. The fields are typed as the module uses them (strings for \<^verbatim>\<open>type\<close>,
  \<^verbatim>\<open>sessionId\<close>, \<^verbatim>\<open>knotPath\<close>, \<^verbatim>\<open>choiceText\<close> and \<^verbatim>\<open>knot\<close>, integers for \<^verbatim>\<open>timestamp\<close> and
  \<^verbatim>\<open>choiceIndex\<close>); values of other JSON types are outside the model.
\<close>

record entry_payload =
  knotPath :: "string option"
  choiceIndex :: "int option"
  choiceText :: "string option"

record entry_context =
  knot :: "string option"

record entry =
  e_type :: "string option"
  e_sessionId :: "string option"
  e_timestamp :: "int option"
  e_payload :: "entry_payload option"
  e_context :: "entry_context option"

text \<open>\<^verbatim>\<open>e.get("type") == "choice"\<close>\<close>

definition is_choice :: "entry \<Rightarrow> bool" where
  "is_choice e \<longleftrightarrow> e_type e = Some ''choice''"

text \<open>\<^verbatim>\<open>c.get("payload") or {}\<close>: an absent payload and an empty one read alike.\<close>

definition payload_or_empty :: "entry \<Rightarrow> entry_payload" where
  "payload_or_empty e =
     (case e_payload e of
        None \<Rightarrow> \<lparr>knotPath = None, choiceIndex = None, choiceText = None\<rparr>
      | Some p \<Rightarrow> p)"

text \<open>\<^verbatim>\<open>c.get("context") or {}\<close>\<close>

definition context_or_empty :: "entry \<Rightarrow> entry_context" where
  "context_or_empty e = (case e_context e of None \<Rightarrow> \<lparr>knot = None\<rparr> | Some c \<Rightarrow> c)"

text \<open>\<^verbatim>\<open>entry.get("sessionId", "")\<close>\<close>

definition session_of :: "entry \<Rightarrow> string" where
  "session_of e = (case e_sessionId e of None \<Rightarrow> [] | Some s \<Rightarrow> s)"

text \<open>\<^verbatim>\<open>entry.get("timestamp", 0)\<close>\<close>

definition timestamp_of :: "entry \<Rightarrow> int" where
  "timestamp_of e = (case e_timestamp e of None \<Rightarrow> 0 | Some t \<Rightarrow> t)"

text \<open>\<^verbatim>\<open>payload.get("knotPath", "unknown")\<close>: only an absent key takes the default, an empty
  string is kept.\<close>

definition path_of :: "entry \<Rightarrow> string" where
  "path_of c = (case knotPath (payload_or_empty c) of None \<Rightarrow> ''unknown'' | Some p \<Rightarrow> p)"

text \<open>\<^verbatim>\<open>payload.get("choiceIndex", -1)\<close>\<close>

definition index_of :: "entry \<Rightarrow> int" where
  "index_of c = (case choiceIndex (payload_or_empty c) of None \<Rightarrow> - 1 | Some i \<Rightarrow> i)"

text \<open>\<^verbatim>\<open>payload.get("choiceText", "")\<close>\<close>

definition text_of :: "entry \<Rightarrow> string" where
  "text_of c = (case choiceText (payload_or_empty c) of None \<Rightarrow> [] | Some t \<Rightarrow> t)"

section \<open>Python primitives\<close>

text \<open>
  A \<^verbatim>\<open>dict\<close> keeps its keys in insertion order, and the order is observable in
  \<^verbatim>\<open>top_paths\<close> and \<^verbatim>\<open>compute_session_summaries\<close>. It is an association list: \<open>map_of d k\<close> is
  \<^verbatim>\<open>d.get(k)\<close>, and \<open>AList.update k v d\<close> is \<^verbatim>\<open>d[k] = v\<close> (the value is replaced in place when the key
  is there, the pair is appended when it is not).

  \<^verbatim>\<open>str(i)\<close> of an integer is its decimal numeral, with a minus sign when negative.
\<close>

definition digit_char :: "nat \<Rightarrow> char" where
  "digit_char d = ''0123456789'' ! d"

fun digits :: "nat \<Rightarrow> string" where
  "digits n = (if n < 10 then [digit_char n] else digits (n div 10) @ [digit_char (n mod 10)])"

declare digits.simps [simp del]

definition str_int :: "int \<Rightarrow> string" where
  "str_int i = (if i < 0 then CHR ''-'' # digits (nat (- i)) else digits (nat i))"

text \<open>A dict comprehension inserts its items one by one; a repeated key keeps its first
  position and takes the last value.\<close>

definition dict_of_items :: "('k \<times> 'v) list \<Rightarrow> ('k \<times> 'v) list" where
  "dict_of_items items = foldl (\<lambda>d (k, v). AList.update k v d) [] items"

section \<open>Path statistics\<close>

record dist_cell =
  cell_count :: int
  cell_text :: string

record path_stats =
  totalChoices :: int
  uniqueSessions :: int
  pathDistribution :: "(string \<times> (string \<times> dist_cell) list) list"

text \<open>
  One round of the loop of \<^verbatim>\<open>compute_path_stats\<close> on the nested dictionary \<^verbatim>\<open>by_path\<close>: the
  inner dictionary of the path is created when missing, the cell of the index is created
  with count 0 and the text of this entry when missing, and the count of the cell is
  incremented.
\<close>

definition by_path_step ::
  "(string \<times> (int \<times> dist_cell) list) list \<Rightarrow> entry \<Rightarrow> (string \<times> (int \<times> dist_cell) list) list"
where
  "by_path_step by_path c =
     (let path = path_of c;
          choice_index = index_of c;
          inner = (case map_of by_path path of None \<Rightarrow> [] | Some m \<Rightarrow> m);
          cell = (case map_of inner choice_index of
                    None \<Rightarrow> \<lparr>cell_count = 0, cell_text = text_of c\<rparr>
                  | Some d \<Rightarrow> d)
      in AList.update path
           (AList.update choice_index (cell\<lparr>cell_count := cell_count cell + 1\<rparr>) inner) by_path)"

definition path_step ::
  "(string \<times> (int \<times> dist_cell) list) list \<times> string set \<Rightarrow> entry
   \<Rightarrow> (string \<times> (int \<times> dist_cell) list) list \<times> string set"
where
  "path_step st c = (by_path_step (fst st) c, insert (session_of c) (snd st))"

definition compute_path_stats :: "entry list \<Rightarrow> path_stats" where
  "compute_path_stats entries =
     (let choices = filter is_choice entries;
          (by_path, sessions) = foldl path_step ([], {}) choices;
          path_distribution =
            dict_of_items
              (map (\<lambda>(path, choices_map).
                      (path, dict_of_items (map (\<lambda>(idx, data). (str_int idx, data)) choices_map)))
                 by_path)
      in \<lparr>totalChoices = int (length choices),
          uniqueSessions = int (card sessions),
          pathDistribution = path_distribution\<rparr>)"

section \<open>Session summaries\<close>

text \<open>
  The accumulator kept per session in \<^verbatim>\<open>compute_session_summaries\<close>. \<^verbatim>\<open>paths\<close> is a Python
  \<^verbatim>\<open>set\<close>, whose iteration order is not specified: it stays a set in the output.
\<close>

record session_acc =
  sessionId :: string
  startTime :: int
  endTime :: int
  choiceCount :: int
  paths :: "string set"

record session_summary = session_acc +
  durationMs :: int

text \<open>The body of the loop after \<^verbatim>\<open>s = sessions[sid]\<close>, on the accumulator of the session.\<close>

definition session_update :: "session_acc \<Rightarrow> entry \<Rightarrow> session_acc" where
  "session_update s entry =
     (let timestamp = timestamp_of entry;
          s1 = s\<lparr>startTime := min (startTime s) timestamp,
                 endTime := max (endTime s) timestamp\<rparr>
      in if is_choice entry
         then (let s2 = s1\<lparr>choiceCount := choiceCount s1 + 1\<rparr>
               in case knotPath (payload_or_empty entry) of
                    None \<Rightarrow> s2
                  | Some knot_path \<Rightarrow>
                      if knot_path \<noteq> [] then s2\<lparr>paths := insert knot_path (paths s2)\<rparr> else s2)
         else s1)"

definition session_init :: "entry \<Rightarrow> session_acc" where
  "session_init entry =
     \<lparr>sessionId = session_of entry, startTime = timestamp_of entry,
      endTime = timestamp_of entry, choiceCount = 0, paths = {}\<rparr>"

definition session_step :: "(string \<times> session_acc) list \<Rightarrow> entry \<Rightarrow> (string \<times> session_acc) list" where
  "session_step sessions entry =
     (let sid = session_of entry;
          s = (case map_of sessions sid of None \<Rightarrow> session_init entry | Some s \<Rightarrow> s)
      in AList.update sid (session_update s entry) sessions)"

definition summary_of :: "session_acc \<Rightarrow> session_summary" where
  "summary_of s =
     \<lparr>sessionId = sessionId s, startTime = startTime s, endTime = endTime s,
      choiceCount = choiceCount s, paths = paths s, durationMs = endTime s - startTime s\<rparr>"

definition compute_session_summaries :: "entry list \<Rightarrow> session_summary list" where
  "compute_session_summaries entries =
     map (\<lambda>(sid, s). summary_of s) (foldl session_step [] entries)"

section \<open>Top paths\<close>

record path_count =
  path :: string
  count :: int

text \<open>\<^verbatim>\<open>path_counts[path] = path_counts.get(path, 0) + 1\<close>\<close>

definition count_step :: "(string \<times> int) list \<Rightarrow> entry \<Rightarrow> (string \<times> int) list" where
  "count_step path_counts c =
     (let path = path_of c
      in AList.update path ((case map_of path_counts path of None \<Rightarrow> 0 | Some n \<Rightarrow> n) + 1)
           path_counts)"

text \<open>
  \<^verbatim>\<open>sorted(items, key=..., reverse=True)\<close>: CPython reverses the list, sorts it with its stable
  sort and reverses the result, so that items with equal keys keep their original order.
\<close>

definition sorted_reverse :: "('a \<Rightarrow> int) \<Rightarrow> 'a list \<Rightarrow> 'a list" where
  "sorted_reverse key xs = rev (sort_key key (rev xs))"

text \<open>The slice \<^verbatim>\<open>xs[:limit]\<close>; a negative limit counts from the end.\<close>

definition slice_to :: "'a list \<Rightarrow> int \<Rightarrow> 'a list" where
  "slice_to xs limit =
     (if limit < 0 then take (length xs - nat (- limit)) xs else take (nat limit) xs)"

definition top_paths :: "entry list \<Rightarrow> int \<Rightarrow> path_count list" where
  "top_paths entries limit =
     (let choices = filter is_choice entries;
          path_counts = foldl count_step [] choices;
          sorted_paths = sorted_reverse snd path_counts
      in map (\<lambda>(p, n). \<lparr>path = p, count = n\<rparr>) (slice_to sorted_paths limit))"

section \<open>Choice statistics\<close>

subsection \<open>The percentage\<close>

text \<open>
  \<^verbatim>\<open>round((data["count"] / total) * 100)\<close> is computed on binary64 floats: the quotient of
  the two integers is rounded to the nearest float (ties to even), so is its product with
  100, and \<^verbatim>\<open>round\<close> takes the nearest integer, ties to the even one. Floats are modelled
  as the rationals they denote, with a significand of 53 bits. The exponent range is not
  modelled: the counts are lengths of lists in memory, far below the overflow threshold,
  and their quotients are far above the subnormal range.
\<close>

datatype error = ZeroDivisionError

text \<open>The number of binary digits of a positive integer.\<close>

function bit_len :: "int \<Rightarrow> int" where
  "bit_len n = (if n \<le> 0 then 0 else 1 + bit_len (n div 2))"
  by pat_completeness auto
termination
  by (relation "measure nat") auto

declare bit_len.simps [simp del]

text \<open>The exponent \<open>e\<close> with \<open>2 ^ e \<le> x < 2 ^ (e + 1)\<close>, for a positive \<open>x\<close>.\<close>

definition binade :: "rat \<Rightarrow> int" where
  "binade x =
     (let (p, q) = quotient_of x;
          d = bit_len p - bit_len q
      in if 2 powi d \<le> x then d else d - 1)"

definition round_half_even :: "rat \<Rightarrow> int" where
  "round_half_even x =
     (let f = \<lfloor>x\<rfloor>; r = x - of_int f
      in if r < 1 / 2 then f else if 1 / 2 < r then f + 1 else if even f then f else f + 1)"

text \<open>Rounding a rational to the nearest float.\<close>

definition to_float :: "rat \<Rightarrow> rat" where
  "to_float x =
     (if x = 0 then 0
      else (let ulp = 2 powi (binade \<bar>x\<bar> - 52)
            in of_int (round_half_even (x / ulp)) * ulp))"

definition percentage_of :: "int \<Rightarrow> int \<Rightarrow> error + int" where
  "percentage_of n d =
     (if d = 0 then Inl ZeroDivisionError
      else Inr (round_half_even (to_float (to_float (of_int n / of_int d) * 100))))"

subsection \<open>The aggregation\<close>

record choice_count =
  cc_count :: int
  cc_knot :: string

record choice_stat =
  total :: int
  percentage :: int

text \<open>\<^verbatim>\<open>a or b\<close> where \<open>a\<close> is a string or absent: an empty string is falsy, as \<^verbatim>\<open>None\<close> is.\<close>

fun str_or :: "string option \<Rightarrow> string \<Rightarrow> string" where
  "str_or None b = b"
| "str_or (Some a) b = (if a = [] then b else a)"

text \<open>\<^verbatim>\<open>payload.get("knotPath") or context.get("knot") or "unknown"\<close>\<close>

definition knot_of :: "entry \<Rightarrow> string" where
  "knot_of c =
     str_or (knotPath (payload_or_empty c)) (str_or (knot (context_or_empty c)) ''unknown'')"

text \<open>\<^verbatim>\<open>f"{knot}:{idx}"\<close>\<close>

definition key_of :: "entry \<Rightarrow> string" where
  "key_of c = knot_of c @ '':'' @ str_int (index_of c)"

definition choice_step ::
  "(string \<times> int) list \<times> (string \<times> choice_count) list \<Rightarrow> entry
   \<Rightarrow> (string \<times> int) list \<times> (string \<times> choice_count) list"
where
  "choice_step st c =
     (let (knot_totals, choice_counts) = st;
          knot = knot_of c;
          key = key_of c;
          knot_totals' =
            AList.update knot ((case map_of knot_totals knot of None \<Rightarrow> 0 | Some n \<Rightarrow> n) + 1)
              knot_totals;
          data = (case map_of choice_counts key of
                    None \<Rightarrow> \<lparr>cc_count = 0, cc_knot = knot\<rparr>
                  | Some d \<Rightarrow> d)
      in (knot_totals',
          AList.update key (data\<lparr>cc_count := cc_count data + 1\<rparr>) choice_counts))"

text \<open>
  \<^verbatim>\<open>s.split(":")\<close> never returns an empty list: the result is its first piece and the list
  of the others, so that \<^verbatim>\<open>[0]\<close> is the first component.
\<close>

fun split_colon :: "string \<Rightarrow> string \<times> string list" where
  "split_colon [] = ([], [])"
| "split_colon (c # cs) =
     (let (w, ws) = split_colon cs
      in if c = CHR '':'' then ([], w # ws) else (c # w, ws))"

text \<open>\<^verbatim>\<open>choice_id.split(":")[0] if ":" in choice_id else choice_id\<close>\<close>

definition query_knot :: "string \<Rightarrow> string" where
  "query_knot choice_id =
     (if CHR '':'' \<in> set choice_id then fst (split_colon choice_id) else choice_id)"

text \<open>The body of the loop over the requested identifiers.\<close>

definition choice_response ::
  "(string \<times> int) list \<Rightarrow> (string \<times> choice_count) list \<Rightarrow> string \<Rightarrow> error + choice_stat"
where
  "choice_response knot_totals choice_counts choice_id =
     (let knot = query_knot choice_id
      in case map_of choice_counts choice_id of
           Some data \<Rightarrow>
             (let knot_total = (case map_of knot_totals knot of None \<Rightarrow> 1 | Some n \<Rightarrow> n)
              in case percentage_of (cc_count data) knot_total of
                   Inl err \<Rightarrow> Inl err
                 | Inr pct \<Rightarrow> Inr \<lparr>total = cc_count data, percentage = pct\<rparr>)
         | None \<Rightarrow> Inr \<lparr>total = 0, percentage = 0\<rparr>)"

fun build_result ::
  "(string \<times> int) list \<Rightarrow> (string \<times> choice_count) list \<Rightarrow> (string \<times> choice_stat) list
   \<Rightarrow> string list \<Rightarrow> error + (string \<times> choice_stat) list"
where
  "build_result knot_totals choice_counts result [] = Inr result"
| "build_result knot_totals choice_counts result (choice_id # choice_ids) =
     (case choice_response knot_totals choice_counts choice_id of
        Inl err \<Rightarrow> Inl err
      | Inr r \<Rightarrow>
          build_result knot_totals choice_counts (AList.update choice_id r result) choice_ids)"

text \<open>The result is the dictionary under the key \<^verbatim>\<open>"choices"\<close> of the returned object.\<close>

definition compute_choice_stats :: "entry list \<Rightarrow> string list \<Rightarrow> error + (string \<times> choice_stat) list" where
  "compute_choice_stats entries choice_ids =
     (let choices = filter is_choice entries;
          (knot_totals, choice_counts) = foldl choice_step ([], []) choices
      in build_result knot_totals choice_counts [] choice_ids)"

section \<open>Notions used in the statements\<close>

text \<open>The sum of the counts of all cells of a nested dictionary.\<close>

definition cells_total :: "('p \<times> ('i \<times> dist_cell) list) list \<Rightarrow> int" where
  "cells_total d = sum_list (map (\<lambda>(p, m). sum_list (map (\<lambda>(i, c). cell_count c) m)) d)"

text \<open>A nested dictionary is well formed when no key occurs twice, at both levels.\<close>

definition wf_by_path :: "('p \<times> ('i \<times> 'c) list) list \<Rightarrow> bool" where
  "wf_by_path d \<longleftrightarrow> distinct (map fst d) \<and> (\<forall>(p, m) \<in> set d. distinct (map fst m))"

text \<open>The nested dictionary with every index replaced by its numeral.\<close>

definition render_keys ::
  "(string \<times> (int \<times> dist_cell) list) list \<Rightarrow> (string \<times> (string \<times> dist_cell) list) list"
where
  "render_keys d = map (\<lambda>(p, m). (p, map (\<lambda>(i, x). (str_int i, x)) m)) d"

text \<open>The cell of a path and an index in \<^verbatim>\<open>pathDistribution\<close>, whose inner keys are numerals.\<close>

definition cell_at ::
  "(string \<times> (string \<times> dist_cell) list) list \<Rightarrow> string \<Rightarrow> int \<Rightarrow> dist_cell option"
where
  "cell_at pd p i = (case map_of pd p of None \<Rightarrow> None | Some m \<Rightarrow> map_of m (str_int i))"

text \<open>The cell of a path and an index in \<^verbatim>\<open>by_path\<close>.\<close>

definition lookup2 :: "('p \<times> ('i \<times> 'c) list) list \<Rightarrow> 'p \<Rightarrow> 'i \<Rightarrow> 'c option" where
  "lookup2 d p i = (case map_of d p of None \<Rightarrow> None | Some m \<Rightarrow> map_of m i)"

text \<open>The non-empty \<^verbatim>\<open>knotPath\<close> values present on the choice entries of a list.\<close>

definition seen_paths :: "entry list \<Rightarrow> string set" where
  "seen_paths es =
     {kp. kp \<noteq> [] \<and>
          Some kp \<in> set (map (\<lambda>e. knotPath (payload_or_empty e)) (filter is_choice es))}"

text \<open>The example log of the specification.\<close>

definition example_log :: "entry list" where
  "example_log =
     [\<lparr>e_type = Some ''choice'', e_sessionId = Some ''s1'', e_timestamp = Some 100,
       e_payload = Some \<lparr>knotPath = Some ''intro'', choiceIndex = Some 0,
         choiceText = Some ''Go left''\<rparr>, e_context = None\<rparr>,
      \<lparr>e_type = Some ''choice'', e_sessionId = Some ''s1'', e_timestamp = Some 200,
       e_payload = Some \<lparr>knotPath = Some ''intro'', choiceIndex = Some 0,
         choiceText = Some ''Go left''\<rparr>, e_context = None\<rparr>,
      \<lparr>e_type = Some ''choice'', e_sessionId = Some ''s2'', e_timestamp = Some 150,
       e_payload = Some \<lparr>knotPath = Some ''intro'', choiceIndex = Some 1,
         choiceText = Some ''Go right''\<rparr>, e_context = None\<rparr>]"

text \<open>The distinct elements of a list, in the order of their first occurrences.\<close>

fun first_seen :: "'a list \<Rightarrow> 'a list" where
  "first_seen [] = []"
| "first_seen (x # xs) = x # filter (\<lambda>y. y \<noteq> x) (first_seen xs)"

text \<open>The position of the first occurrence of an element of a list.\<close>

definition first_index :: "'a list \<Rightarrow> 'a \<Rightarrow> nat" where
  "first_index xs x = length (takeWhile (\<lambda>y. y \<noteq> x) xs)"

text \<open>The paths of the choice entries of a log, as \<^verbatim>\<open>top_paths\<close> reads them.\<close>

definition choice_paths :: "entry list \<Rightarrow> string list" where
  "choice_paths entries = map path_of (filter is_choice entries)"

text \<open>Descending counts, and the earlier first occurrence in \<open>ps\<close> first among equal counts.\<close>

definition ranks_before :: "string list \<Rightarrow> path_count \<Rightarrow> path_count \<Rightarrow> bool" where
  "ranks_before ps a b \<longleftrightarrow>
     count a > count b \<or> (count a = count b \<and> first_index ps (path a) < first_index ps (path b))"

text \<open>The dictionary \<^verbatim>\<open>path_counts\<close> at the end of the loop of \<^verbatim>\<open>top_paths\<close>.\<close>

definition path_counts_of :: "entry list \<Rightarrow> (string \<times> int) list" where
  "path_counts_of entries = foldl count_step [] (filter is_choice entries)"

text \<open>A log with two paths chosen twice, a non-choice entry and a choice without payload.\<close>

definition choice_on :: "string \<Rightarrow> entry" where
  "choice_on p =
     \<lparr>e_type = Some ''choice'', e_sessionId = Some ''s1'', e_timestamp = Some 0,
      e_payload = Some \<lparr>knotPath = Some p, choiceIndex = Some 0, choiceText = None\<rparr>,
      e_context = None\<rparr>"

definition tie_log :: "entry list" where
  "tie_log =
     [choice_on ''b'', choice_on ''a'',
      \<lparr>e_type = Some ''view'', e_sessionId = Some ''s1'', e_timestamp = Some 0,
       e_payload = None, e_context = None\<rparr>,
      choice_on ''b'', choice_on ''a'',
      \<lparr>e_type = Some ''choice'', e_sessionId = Some ''s2'', e_timestamp = Some 0,
       e_payload = None, e_context = None\<rparr>]"

text \<open>
  A log whose paths are first seen in the order \<^verbatim>\<open>c\<close>, \<^verbatim>\<open>b\<close>, \<^verbatim>\<open>a\<close>, with \<^verbatim>\<open>b\<close> and \<^verbatim>\<open>a\<close>
  chosen twice and \<^verbatim>\<open>c\<close> once, and with an entry that is not a choice.
\<close>

definition rank_log :: "entry list" where
  "rank_log =
     [choice_on ''c'', choice_on ''b'', choice_on ''a'',
      \<lparr>e_type = Some ''view'', e_sessionId = Some ''s1'', e_timestamp = Some 0,
       e_payload = None, e_context = None\<rparr>,
      choice_on ''b'', choice_on ''a'']"

text \<open>How many choice entries of a log have a given identifier, and a given knot.\<close>

definition observed_count :: "entry list \<Rightarrow> string \<Rightarrow> int" where
  "observed_count entries choice_id =
     int (length (filter (\<lambda>c. key_of c = choice_id) (filter is_choice entries)))"

definition knot_total_count :: "entry list \<Rightarrow> string \<Rightarrow> int" where
  "knot_total_count entries k =
     int (length (filter (\<lambda>c. knot_of c = k) (filter is_choice entries)))"

text \<open>The denominator that the loop over the requested identifiers reads.\<close>

definition denominator_of :: "entry list \<Rightarrow> string \<Rightarrow> int" where
  "denominator_of entries choice_id =
     (if 0 < knot_total_count entries (query_knot choice_id)
      then knot_total_count entries (query_knot choice_id) else 1)"

text \<open>The float arithmetic of the percentage, on a denominator that is not zero.\<close>

definition percent :: "int \<Rightarrow> int \<Rightarrow> int" where
  "percent n d = round_half_even (to_float (to_float (of_int n / of_int d) * 100))"

definition stat_of :: "entry list \<Rightarrow> string \<Rightarrow> choice_stat" where
  "stat_of entries choice_id =
     (if 0 < observed_count entries choice_id
      then \<lparr>total = observed_count entries choice_id,
            percentage = percent (observed_count entries choice_id)
                           (denominator_of entries choice_id)\<rparr>
      else \<lparr>total = 0, percentage = 0\<rparr>)"

text \<open>Two choices on index 0 of a knot whose name contains a colon.\<close>

definition colon_log :: "entry list" where
  "colon_log =
     [\<lparr>e_type = Some ''choice'', e_sessionId = Some ''s1'', e_timestamp = Some 1,
       e_payload = Some \<lparr>knotPath = Some ''a:b'', choiceIndex = Some 0, choiceText = None\<rparr>,
       e_context = None\<rparr>,
      \<lparr>e_type = Some ''choice'', e_sessionId = Some ''s2'', e_timestamp = Some 2,
       e_payload = Some \<lparr>knotPath = Some ''a:b'', choiceIndex = Some 0, choiceText = None\<rparr>,
       e_context = None\<rparr>]"

text \<open>Knot \<^verbatim>\<open>k\<close> with index 0 chosen three times and index 1 once.\<close>

definition choice_at :: "string \<Rightarrow> int \<Rightarrow> entry" where
  "choice_at k i =
     \<lparr>e_type = Some ''choice'', e_sessionId = Some ''s1'', e_timestamp = Some 0,
      e_payload = Some \<lparr>knotPath = Some k, choiceIndex = Some i, choiceText = None\<rparr>,
      e_context = None\<rparr>"

definition three_one_log :: "entry list" where
  "three_one_log = [choice_at ''k'' 0, choice_at ''k'' 1, choice_at ''k'' 0, choice_at ''k'' 0]"


section \<open>Decimal numerals\<close>

lemma digit_char_inj: "a < 10 \<Longrightarrow> b < 10 \<Longrightarrow> digit_char a = digit_char b \<Longrightarrow> a = b"
proof -
  assume "a < 10" "b < 10" "digit_char a = digit_char b"
  moreover have "distinct ''0123456789''" by simp
  ultimately show ?thesis
    unfolding digit_char_def by (simp add: nth_eq_iff_index_eq)
qed

lemma digits_nonempty: "digits n \<noteq> []"
  by (subst digits.simps) simp

lemma digit_char_range: "d < 10 \<Longrightarrow> digit_char d \<noteq> CHR ''-'' \<and> digit_char d \<noteq> CHR '':''"
proof -
  assume "d < 10"
  then have "digit_char d \<in> set ''0123456789''"
    unfolding digit_char_def by (intro nth_mem) simp
  then show ?thesis by auto
qed

lemma digits_chars: "c \<in> set (digits n) \<Longrightarrow> c \<noteq> CHR ''-'' \<and> c \<noteq> CHR '':''"
proof (induction n rule: digits.induct)
  case (1 n)
  show ?case
  proof (cases "n < 10")
    case True
    with "1.prems" show ?thesis
      by (subst (asm) digits.simps) (simp add: digit_char_range)
  next
    case False
    have "n mod 10 < 10" by simp
    with False "1.prems" "1.IH" show ?thesis
      by (subst (asm) digits.simps) (auto simp: digit_char_range)
  qed
qed

lemma digits_inj: "digits m = digits n \<Longrightarrow> m = n"
proof (induction m arbitrary: n rule: digits.induct)
  case (1 m)
  show ?case
  proof (cases "m < 10")
    case True
    then have m: "digits m = [digit_char m]" by (subst digits.simps) simp
    show ?thesis
    proof (cases "n < 10")
      case n: True
      then have "digits n = [digit_char n]" by (subst digits.simps) simp
      with m "1.prems" True n show ?thesis by (simp add: digit_char_inj)
    next
      case False
      then have "digits n = digits (n div 10) @ [digit_char (n mod 10)]"
        by (subst digits.simps) simp
      with m "1.prems" digits_nonempty [of "n div 10"] show ?thesis by simp
    qed
  next
    case False
    then have m: "digits m = digits (m div 10) @ [digit_char (m mod 10)]"
      by (subst digits.simps) simp
    show ?thesis
    proof (cases "n < 10")
      case True
      then have "digits n = [digit_char n]" by (subst digits.simps) simp
      with m "1.prems" digits_nonempty [of "m div 10"] show ?thesis by simp
    next
      case n: False
      then have "digits n = digits (n div 10) @ [digit_char (n mod 10)]"
        by (subst digits.simps) simp
      with m "1.prems" have eq: "digits (m div 10) = digits (n div 10)"
        and d: "digit_char (m mod 10) = digit_char (n mod 10)" by simp_all
      from "1.IH" [OF False eq] have "m div 10 = n div 10" .
      moreover from d have "m mod 10 = n mod 10" by (simp add: digit_char_inj)
      ultimately show ?thesis by (metis div_mult_mod_eq)
    qed
  qed
qed

lemma str_int_no_colon: "CHR '':'' \<notin> set (str_int i)"
  using digits_chars by (auto simp: str_int_def)

lemma str_int_inj: "str_int i = str_int j \<Longrightarrow> i = j"
proof -
  assume eq: "str_int i = str_int j"
  have minus: "CHR ''-'' # digits a \<noteq> digits b" for a b
  proof
    assume "CHR ''-'' # digits a = digits b"
    then have "CHR ''-'' \<in> set (digits b)" by (metis list.set_intros(1))
    then show False using digits_chars by blast
  qed
  show ?thesis
  proof (cases "i < 0")
    case True
    show ?thesis
    proof (cases "j < 0")
      case j: True
      with True eq have "nat (- i) = nat (- j)" by (simp add: str_int_def digits_inj)
      with True j show ?thesis by simp
    next
      case False
      with True eq minus show ?thesis by (simp add: str_int_def)
    qed
  next
    case False
    show ?thesis
    proof (cases "j < 0")
      case True
      with False eq minus [of "nat (- j)" "nat i"] show ?thesis by (simp add: str_int_def)
    next
      case j: False
      with False eq have "nat i = nat j" by (simp add: str_int_def digits_inj)
      with False j show ?thesis by simp
    qed
  qed
qed

lemma inj_str_int: "inj str_int"
  by (rule injI) (rule str_int_inj)

section \<open>Properties of the path statistics\<close>

lemma dict_of_items_snoc:
  "dict_of_items (items @ [(k, v)]) = AList.update k v (dict_of_items items)"
  by (simp add: dict_of_items_def)

lemma update_fresh: "k \<notin> fst ` set al \<Longrightarrow> AList.update k v al = al @ [(k, v)]"
  by (induction al) auto

lemma dict_of_items_distinct: "distinct (map fst items) \<Longrightarrow> dict_of_items items = items"
proof (induction items rule: rev_induct)
  case Nil
  show ?case by (simp add: dict_of_items_def)
next
  case (snoc x xs)
  obtain k v where x: "x = (k, v)" by (cases x)
  from snoc.prems have d: "distinct (map fst xs)" and k: "k \<notin> fst ` set xs"
    by (auto simp: x)
  from snoc.IH [OF d] k show ?case
    by (simp add: x dict_of_items_snoc update_fresh)
qed

lemma sum_list_update:
  fixes g :: "'v \<Rightarrow> int"
  shows "sum_list (map (\<lambda>(k, v). g v) (AList.update k v al)) =
         sum_list (map (\<lambda>(k, v). g v) al) - (case map_of al k of None \<Rightarrow> 0 | Some w \<Rightarrow> g w) + g v"
  by (induction al) auto

lemma cells_total_step: "cells_total (by_path_step d c) = cells_total d + 1"
proof -
  define inner where "inner = (case map_of d (path_of c) of None \<Rightarrow> [] | Some m \<Rightarrow> m)"
  define cell where "cell = (case map_of inner (index_of c) of
      None \<Rightarrow> \<lparr>cell_count = 0, cell_text = text_of c\<rparr> | Some x \<Rightarrow> x)"
  define inner' where
    "inner' = AList.update (index_of c) (cell\<lparr>cell_count := cell_count cell + 1\<rparr>) inner"
  have step: "by_path_step d c = AList.update (path_of c) inner' d"
    by (simp add: by_path_step_def Let_def inner_def cell_def inner'_def)
  have 1: "sum_list (map (\<lambda>(i, x). cell_count x) inner') =
           sum_list (map (\<lambda>(i, x). cell_count x) inner) + 1"
    unfolding inner'_def sum_list_update by (simp add: cell_def split: option.splits)
  have 2: "(case map_of d (path_of c) of None \<Rightarrow> 0
            | Some m \<Rightarrow> sum_list (map (\<lambda>(i, x). cell_count x) m)) =
           sum_list (map (\<lambda>(i, x). cell_count x) inner)"
    by (simp add: inner_def split: option.splits)
  show ?thesis
    unfolding step cells_total_def
    using sum_list_update [of "\<lambda>m. sum_list (map (\<lambda>(i, x). cell_count x) m)" "path_of c" inner' d]
    by (simp add: 1 2)
qed

lemma cells_total_fold: "cells_total (foldl by_path_step d cs) = cells_total d + int (length cs)"
  by (induction cs arbitrary: d) (simp_all add: cells_total_step)

lemma fst_fold_path_step: "fst (foldl path_step st cs) = foldl by_path_step (fst st) cs"
  by (induction cs arbitrary: st) (simp_all add: path_step_def)

lemma snd_fold_path_step: "snd (foldl path_step st cs) = snd st \<union> session_of ` set cs"
  by (induction cs arbitrary: st) (auto simp: path_step_def)

lemma set_update_subset: "set (AList.update k v al) \<subseteq> insert (k, v) (set al)"
  by (induction al) auto

lemma wf_by_path_step: "wf_by_path d \<Longrightarrow> wf_by_path (by_path_step d c)"
proof -
  assume wf: "wf_by_path d"
  define inner where "inner = (case map_of d (path_of c) of None \<Rightarrow> [] | Some m \<Rightarrow> m)"
  define cell where "cell = (case map_of inner (index_of c) of
      None \<Rightarrow> \<lparr>cell_count = 0, cell_text = text_of c\<rparr> | Some x \<Rightarrow> x)"
  define inner' where
    "inner' = AList.update (index_of c) (cell\<lparr>cell_count := cell_count cell + 1\<rparr>) inner"
  have step: "by_path_step d c = AList.update (path_of c) inner' d"
    by (simp add: by_path_step_def Let_def inner_def cell_def inner'_def)
  have "distinct (map fst inner)"
  proof (cases "map_of d (path_of c)")
    case None
    then show ?thesis by (simp add: inner_def)
  next
    case (Some m)
    then have "(path_of c, m) \<in> set d" by (rule map_of_SomeD)
    with wf Some show ?thesis by (auto simp: inner_def wf_by_path_def)
  qed
  then have "distinct (map fst inner')"
    unfolding inner'_def by (rule distinct_update)
  moreover have "distinct (map fst (AList.update (path_of c) inner' d))"
    using wf by (simp add: wf_by_path_def distinct_update)
  ultimately show ?thesis
    unfolding step wf_by_path_def
    using wf set_update_subset [of "path_of c" inner' d]
    by (auto simp: wf_by_path_def)
qed

lemma wf_by_path_fold: "wf_by_path d \<Longrightarrow> wf_by_path (foldl by_path_step d cs)"
  by (induction cs arbitrary: d) (simp_all add: wf_by_path_step)

lemma distinct_rendered:
  "distinct (map fst m) \<Longrightarrow> distinct (map fst (map (\<lambda>(i, x). (str_int i, x)) m))"
proof -
  assume "distinct (map fst m)"
  moreover have "map fst (map (\<lambda>(i, x). (str_int i, x)) m) = map str_int (map fst m)"
    by (induction m) auto
  ultimately show ?thesis
    using inj_str_int by (simp add: distinct_map inj_on_def del: map_map)
qed

lemma path_distribution_wf:
  assumes "wf_by_path d"
  shows "dict_of_items
           (map (\<lambda>(p, m). (p, dict_of_items (map (\<lambda>(i, x). (str_int i, x)) m))) d) =
         render_keys d"
proof -
  have inner: "map (\<lambda>(p, m). (p, dict_of_items (map (\<lambda>(i, x). (str_int i, x)) m))) d =
               render_keys d"
    unfolding render_keys_def
  proof (rule map_cong [OF refl])
    fix pm assume "pm \<in> set d"
    then have "distinct (map fst (snd pm))"
      using assms by (auto simp: wf_by_path_def)
    then show "(case pm of (p, m) \<Rightarrow> (p, dict_of_items (map (\<lambda>(i, x). (str_int i, x)) m))) =
               (case pm of (p, m) \<Rightarrow> (p, map (\<lambda>(i, x). (str_int i, x)) m))"
      using dict_of_items_distinct [OF distinct_rendered, of "snd pm"] by (cases pm) simp
  qed
  have "map fst (render_keys d) = map fst d"
    unfolding render_keys_def by (induction d) auto
  with assms have "distinct (map fst (render_keys d))"
    by (simp add: wf_by_path_def)
  then show ?thesis
    unfolding inner by (rule dict_of_items_distinct)
qed

lemma cells_total_render: "cells_total (render_keys d) = cells_total d"
proof -
  have "sum_list (map (\<lambda>(i, c). cell_count c) (map (\<lambda>(i, x). (str_int i, x)) m)) =
        sum_list (map (\<lambda>(i, c). cell_count c) m)" for m :: "(int \<times> dist_cell) list"
    by (induction m) auto
  then show ?thesis
    unfolding render_keys_def cells_total_def by (induction d) auto
qed

lemma compute_path_stats_unfold:
  "compute_path_stats entries =
     \<lparr>totalChoices = int (length (filter is_choice entries)),
      uniqueSessions = int (card (session_of ` set (filter is_choice entries))),
      pathDistribution = render_keys (foldl by_path_step [] (filter is_choice entries))\<rparr>"
proof -
  have wf: "wf_by_path (foldl by_path_step [] (filter is_choice entries))"
    by (rule wf_by_path_fold) (simp add: wf_by_path_def)
  show ?thesis
    unfolding compute_path_stats_def Let_def
    using fst_fold_path_step [of "([], {})" "filter is_choice entries"]
      snd_fold_path_step [of "([], {})" "filter is_choice entries"]
    by (simp add: case_prod_beta path_distribution_wf [OF wf])
qed

text \<open>
  Claim C4. For every entry list, \<^verbatim>\<open>totalChoices\<close> is the number of entries whose type is
  \<^verbatim>\<open>"choice"\<close>, and the counts of all cells of \<^verbatim>\<open>pathDistribution\<close>, summed over every path
  and every index, add up to \<^verbatim>\<open>totalChoices\<close>.
\<close>

theorem total_choices_and_distribution_sum:
  "totalChoices (compute_path_stats entries) = int (length (filter is_choice entries)) \<and>
   (\<Sum>(p, m) \<leftarrow> pathDistribution (compute_path_stats entries). \<Sum>(i, c) \<leftarrow> m. cell_count c) =
     totalChoices (compute_path_stats entries)"
proof -
  have "cells_total (render_keys (foldl by_path_step [] (filter is_choice entries))) =
        int (length (filter is_choice entries))"
    by (simp add: cells_total_render cells_total_fold) (simp add: cells_total_def)
  then show ?thesis
    unfolding compute_path_stats_unfold cells_total_def by simp
qed


lemma lookup2_step:
  "lookup2 (by_path_step d c) p i =
     (if p = path_of c \<and> i = index_of c
      then Some ((case lookup2 d p i of
                    None \<Rightarrow> \<lparr>cell_count = 0, cell_text = text_of c\<rparr> | Some x \<Rightarrow> x)
                 \<lparr>cell_count := cell_count (case lookup2 d p i of
                    None \<Rightarrow> \<lparr>cell_count = 0, cell_text = text_of c\<rparr> | Some x \<Rightarrow> x) + 1\<rparr>)
      else lookup2 d p i)"
  by (simp add: lookup2_def by_path_step_def Let_def update_conv' split: option.splits)

lemma lookup2_fold:
  "lookup2 (foldl by_path_step d cs) p i =
     (case filter (\<lambda>c. path_of c = p \<and> index_of c = i) cs of
        [] \<Rightarrow> lookup2 d p i
      | c # rest \<Rightarrow>
          (case lookup2 d p i of
             None \<Rightarrow> Some \<lparr>cell_count = 1 + int (length rest), cell_text = text_of c\<rparr>
           | Some x \<Rightarrow> Some (x\<lparr>cell_count := cell_count x + 1 + int (length rest)\<rparr>)))"
proof (induction cs arbitrary: d)
  case Nil
  show ?case by simp
next
  case (Cons a cs)
  show ?case
  proof (cases "path_of a = p \<and> index_of a = i")
    case True
    then show ?thesis
      by (simp add: Cons.IH lookup2_step split: list.splits option.splits)
  next
    case False
    then have "lookup2 (by_path_step d a) p i = lookup2 d p i"
      by (auto simp: lookup2_step)
    with False show ?thesis
      by (auto simp add: Cons.IH split: list.splits)
  qed
qed

lemma map_of_rendered:
  "map_of (map (\<lambda>(i, x). (str_int i, x)) m) (str_int i) = map_of m i"
  by (induction m) (auto dest: str_int_inj)

lemma cell_at_render: "cell_at (render_keys d) p i = lookup2 d p i"
proof -
  have "map_of (render_keys d) p =
        map_option (\<lambda>m. map (\<lambda>(i, x). (str_int i, x)) m) (map_of d p)"
    unfolding render_keys_def by (induction d) auto
  then show ?thesis
    by (simp add: cell_at_def lookup2_def map_of_rendered split: option.splits)
qed

text \<open>
  Claim C7. In \<^verbatim>\<open>pathDistribution\<close>, the cell of a pair of a path and an index exists exactly
  when some choice entry has that pair; its text is the \<^verbatim>\<open>choiceText\<close> of the first such entry
  (the empty string when absent), and every later such entry adds 1 to the count only,
  whatever its own text.
\<close>

theorem first_choice_text_is_kept:
  "cell_at (pathDistribution (compute_path_stats entries)) p i =
     (case filter (\<lambda>c. is_choice c \<and> path_of c = p \<and> index_of c = i) entries of
        [] \<Rightarrow> None
      | c # rest \<Rightarrow> Some \<lparr>cell_count = 1 + int (length rest), cell_text = text_of c\<rparr>)"
proof -
  have "lookup2 ([] :: (string \<times> (int \<times> dist_cell) list) list) p i = None"
    by (simp add: lookup2_def)
  then show ?thesis
    by (simp add: compute_path_stats_unfold cell_at_render lookup2_fold conj_commute
        conj_left_commute split: list.splits)
qed

text \<open>
  Claim C1, as the code has it. \<^verbatim>\<open>uniqueSessions\<close> is the number of distinct \<^verbatim>\<open>sessionId\<close>
  values (an absent one read as the empty string) over the entries whose type is
  \<^verbatim>\<open>"choice"\<close>: the set of sessions is filled inside the loop over the choices.
\<close>

theorem unique_sessions_over_choices:
  "uniqueSessions (compute_path_stats entries) =
     int (card (session_of ` set (filter is_choice entries)))"
  by (simp add: compute_path_stats_unfold)

text \<open>
  A log of one entry that is not a choice has one session and \<^verbatim>\<open>uniqueSessions = 0\<close>:
  the count over all entries, as C1 is worded, is not what is returned.
\<close>

theorem unique_sessions_all_entries_counterexample:
  "uniqueSessions (compute_path_stats
      [\<lparr>e_type = Some ''view'', e_sessionId = Some ''s1'', e_timestamp = Some 100,
        e_payload = None, e_context = None\<rparr>]) \<noteq>
   int (card (session_of ` set
      [\<lparr>e_type = Some ''view'', e_sessionId = Some ''s1'', e_timestamp = Some 100,
        e_payload = None, e_context = None\<rparr>]))"
  by (simp add: compute_path_stats_def is_choice_def)

text \<open>Two choices on the same cell with different texts: the first text stays.\<close>

lemma later_text_is_ignored_example:
  "pathDistribution (compute_path_stats
      [\<lparr>e_type = Some ''choice'', e_sessionId = Some ''s1'', e_timestamp = Some 100,
        e_payload = Some \<lparr>knotPath = Some ''intro'', choiceIndex = Some 0,
          choiceText = Some ''Go left''\<rparr>, e_context = None\<rparr>,
       \<lparr>e_type = Some ''choice'', e_sessionId = Some ''s2'', e_timestamp = Some 100,
        e_payload = Some \<lparr>knotPath = Some ''intro'', choiceIndex = Some 0,
          choiceText = Some ''Go west''\<rparr>, e_context = None\<rparr>]) =
   [(''intro'', [(''0'', \<lparr>cell_count = 2, cell_text = ''Go left''\<rparr>)])]"
  by (simp add: compute_path_stats_def is_choice_def path_step_def by_path_step_def
      path_of_def index_of_def text_of_def payload_or_empty_def dict_of_items_def str_int_def
      digits.simps digit_char_def session_of_def)

section \<open>Properties of the session summaries\<close>

lemma session_update_fields:
  "sessionId (session_update s e) = sessionId s"
  "startTime (session_update s e) = min (startTime s) (timestamp_of e)"
  "endTime (session_update s e) = max (endTime s) (timestamp_of e)"
  "choiceCount (session_update s e) = choiceCount s + (if is_choice e then 1 else 0)"
  "paths (session_update s e) = paths s \<union> seen_paths [e]"
  by (auto simp: session_update_def Let_def seen_paths_def split: option.splits)

lemma seen_paths_Cons: "seen_paths (e # es) = seen_paths [e] \<union> seen_paths es"
  by (auto simp: seen_paths_def)

lemma Min_insert_min:
  fixes a :: int
  shows "finite A \<Longrightarrow> Min (insert (min a b) A) = Min (insert a (insert b A))"
  by (cases "A = {}") (simp_all add: min.assoc)

lemma Max_insert_max:
  fixes a :: int
  shows "finite A \<Longrightarrow> Max (insert (max a b) A) = Max (insert a (insert b A))"
  by (cases "A = {}") (simp_all add: max.assoc)

lemma fold_session_update:
  "sessionId (foldl session_update s es) = sessionId s"
  "startTime (foldl session_update s es) = Min (insert (startTime s) (timestamp_of ` set es))"
  "endTime (foldl session_update s es) = Max (insert (endTime s) (timestamp_of ` set es))"
  "choiceCount (foldl session_update s es) = choiceCount s + int (length (filter is_choice es))"
  "paths (foldl session_update s es) = paths s \<union> seen_paths es"
proof -
  show "sessionId (foldl session_update s es) = sessionId s"
    by (induction es arbitrary: s) (simp_all add: session_update_fields)
  show "startTime (foldl session_update s es) = Min (insert (startTime s) (timestamp_of ` set es))"
  proof (induction es arbitrary: s)
    case Nil
    show ?case by simp
  next
    case (Cons e es)
    have "Min (insert (min (startTime s) (timestamp_of e)) (timestamp_of ` set es)) =
          Min (insert (startTime s) (insert (timestamp_of e) (timestamp_of ` set es)))"
      by (rule Min_insert_min) simp
    then show ?case by (simp add: Cons.IH session_update_fields del: Min_insert)
  qed
  show "endTime (foldl session_update s es) = Max (insert (endTime s) (timestamp_of ` set es))"
  proof (induction es arbitrary: s)
    case Nil
    show ?case by simp
  next
    case (Cons e es)
    have "Max (insert (max (endTime s) (timestamp_of e)) (timestamp_of ` set es)) =
          Max (insert (endTime s) (insert (timestamp_of e) (timestamp_of ` set es)))"
      by (rule Max_insert_max) simp
    then show ?case by (simp add: Cons.IH session_update_fields del: Max_insert)
  qed
  show "choiceCount (foldl session_update s es) = choiceCount s + int (length (filter is_choice es))"
    by (induction es arbitrary: s) (simp_all add: session_update_fields)
  show "paths (foldl session_update s es) = paths s \<union> seen_paths es"
  proof (induction es arbitrary: s)
    case Nil
    show ?case by (simp add: seen_paths_def)
  next
    case (Cons e es)
    show ?case
      using seen_paths_Cons [of e es] by (simp add: Cons.IH session_update_fields Un_assoc)
  qed
qed

lemma map_of_session_step:
  "map_of (session_step S e) sid =
     (if session_of e = sid
      then Some (session_update (case map_of S sid of None \<Rightarrow> session_init e | Some s \<Rightarrow> s) e)
      else map_of S sid)"
  by (auto simp: session_step_def Let_def update_conv')

lemma map_of_fold_session_step:
  "map_of (foldl session_step S es) sid =
     (case filter (\<lambda>e. session_of e = sid) es of
        [] \<Rightarrow> map_of S sid
      | e # rest \<Rightarrow>
          Some (foldl session_update
                  (case map_of S sid of None \<Rightarrow> session_init e | Some s \<Rightarrow> s) (e # rest)))"
proof (induction es arbitrary: S)
  case Nil
  show ?case by simp
next
  case (Cons a es)
  show ?case
  proof (cases "session_of a = sid")
    case True
    then show ?thesis
      by (simp add: Cons.IH map_of_session_step split: list.splits)
  next
    case False
    then show ?thesis
      by (simp add: Cons.IH map_of_session_step split: list.splits)
  qed
qed

lemma keys_fold_session_step:
  "fst ` set (foldl session_step S es) = fst ` set S \<union> session_of ` set es"
proof (induction es arbitrary: S)
  case Nil
  show ?case by simp
next
  case (Cons a es)
  have "fst ` set (session_step S a) = insert (session_of a) (fst ` set S)"
    by (simp add: session_step_def Let_def dom_update)
  then show ?case by (simp add: Cons.IH)
qed

lemma distinct_fold_session_step:
  "distinct (map fst S) \<Longrightarrow> distinct (map fst (foldl session_step S es))"
  by (induction es arbitrary: S) (simp_all add: session_step_def Let_def distinct_update)

lemma session_acc_in_fold:
  assumes "(sid, s) \<in> set (foldl session_step [] entries)"
  shows "\<exists>e rest. filter (\<lambda>e. session_of e = sid) entries = e # rest \<and>
           s = foldl session_update (session_init e) (e # rest)"
proof -
  have "distinct (map fst (foldl session_step [] entries))"
    by (rule distinct_fold_session_step) simp
  with assms have "map_of (foldl session_step [] entries) sid = Some s"
    by simp
  then show ?thesis
    by (simp add: map_of_fold_session_step split: list.splits)
qed

lemma summary_fields:
  assumes "(sid, s) \<in> set (foldl session_step [] entries)"
  defines "es \<equiv> filter (\<lambda>e. session_of e = sid) entries"
  shows "sessionId s = sid"
    and "startTime s = Min (timestamp_of ` set es)"
    and "endTime s = Max (timestamp_of ` set es)"
    and "choiceCount s = int (length (filter is_choice es))"
    and "paths s = seen_paths es"
proof -
  from session_acc_in_fold [OF assms(1)] obtain e rest
    where es: "es = e # rest" and s: "s = foldl session_update (session_init e) (e # rest)"
    unfolding es_def by blast
  have "e \<in> set es" by (simp add: es)
  then have sid: "session_of e = sid" by (simp add: es_def)
  have init: "sessionId (session_init e) = session_of e" "startTime (session_init e) = timestamp_of e"
    "endTime (session_init e) = timestamp_of e" "choiceCount (session_init e) = 0"
    "paths (session_init e) = {}"
    by (simp_all add: session_init_def)
  show "sessionId s = sid"
    unfolding s fold_session_update init sid ..
  show "startTime s = Min (timestamp_of ` set es)"
    unfolding s fold_session_update init es by simp
  show "endTime s = Max (timestamp_of ` set es)"
    unfolding s fold_session_update init es by simp
  show "choiceCount s = int (length (filter is_choice es))"
    unfolding s fold_session_update init es by simp
  show "paths s = seen_paths es"
    unfolding s fold_session_update init es by simp
qed

text \<open>
  Claim C5. \<^verbatim>\<open>compute_session_summaries\<close> returns exactly one record per distinct
  \<^verbatim>\<open>sessionId\<close> of the log. In the record of a session, \<^verbatim>\<open>startTime\<close> and \<^verbatim>\<open>endTime\<close> are the
  least and the greatest timestamp over all entries of the session (choice or not, a
  missing timestamp read as 0), \<^verbatim>\<open>choiceCount\<close> is the number of its choice entries,
  \<^verbatim>\<open>paths\<close> is the set of the non-empty \<^verbatim>\<open>knotPath\<close> values of its choice entries, and
  \<^verbatim>\<open>durationMs\<close> is \<^verbatim>\<open>endTime - startTime\<close>.
\<close>

theorem session_summaries_per_session:
  "distinct (map sessionId (compute_session_summaries entries)) \<and>
   set (map sessionId (compute_session_summaries entries)) = session_of ` set entries \<and>
   (\<forall>r \<in> set (compute_session_summaries entries).
      startTime r = Min (timestamp_of ` set (filter (\<lambda>e. session_of e = sessionId r) entries)) \<and>
      endTime r = Max (timestamp_of ` set (filter (\<lambda>e. session_of e = sessionId r) entries)) \<and>
      choiceCount r =
        int (length (filter is_choice (filter (\<lambda>e. session_of e = sessionId r) entries))) \<and>
      paths r = seen_paths (filter (\<lambda>e. session_of e = sessionId r) entries) \<and>
      durationMs r = endTime r - startTime r)"
proof -
  let ?al = "foldl session_step [] entries"
  have ids: "map sessionId (compute_session_summaries entries) = map fst ?al"
    unfolding compute_session_summaries_def
    by (auto simp: summary_of_def summary_fields(1))
  have 1: "distinct (map sessionId (compute_session_summaries entries))"
    unfolding ids by (rule distinct_fold_session_step) simp
  have 2: "set (map sessionId (compute_session_summaries entries)) = session_of ` set entries"
    unfolding ids using keys_fold_session_step [of "[]" entries] by simp
  have 3: "startTime r = Min (timestamp_of ` set (filter (\<lambda>e. session_of e = sessionId r) entries)) \<and>
      endTime r = Max (timestamp_of ` set (filter (\<lambda>e. session_of e = sessionId r) entries)) \<and>
      choiceCount r =
        int (length (filter is_choice (filter (\<lambda>e. session_of e = sessionId r) entries))) \<and>
      paths r = seen_paths (filter (\<lambda>e. session_of e = sessionId r) entries) \<and>
      durationMs r = endTime r - startTime r"
    if "r \<in> set (compute_session_summaries entries)" for r
  proof -
    from that obtain sid s where in_al: "(sid, s) \<in> set ?al" and r: "r = summary_of s"
      unfolding compute_session_summaries_def by auto
    have sid: "sessionId r = sid"
      using summary_fields(1) [OF in_al] by (simp add: r summary_of_def)
    show ?thesis
      unfolding sid using summary_fields(2-5) [OF in_al]
      by (simp add: r summary_of_def)
  qed
  from 1 2 3 show ?thesis by blast
qed

lemma example_session_summaries:
  "compute_session_summaries example_log =
     [\<lparr>sessionId = ''s1'', startTime = 100, endTime = 200, choiceCount = 2,
       paths = {''intro''}, durationMs = 100\<rparr>,
      \<lparr>sessionId = ''s2'', startTime = 150, endTime = 150, choiceCount = 1,
       paths = {''intro''}, durationMs = 0\<rparr>]"
  by (simp add: compute_session_summaries_def example_log_def session_step_def
      session_update_def session_init_def summary_of_def session_of_def timestamp_of_def
      is_choice_def payload_or_empty_def Let_def)

text \<open>The record of session \<^verbatim>\<open>s1\<close> in the example log.\<close>

theorem session_summaries_per_session_witness:
  "\<lparr>sessionId = ''s1'', startTime = 100, endTime = 200, choiceCount = 2,
     paths = {''intro''}, durationMs = 100\<rparr> \<in> set (compute_session_summaries example_log) \<and>
   Min (timestamp_of ` set (filter (\<lambda>e. session_of e = ''s1'') example_log)) = 100 \<and>
   Max (timestamp_of ` set (filter (\<lambda>e. session_of e = ''s1'') example_log)) = 200 \<and>
   int (length (filter is_choice (filter (\<lambda>e. session_of e = ''s1'') example_log))) = 2 \<and>
   seen_paths (filter (\<lambda>e. session_of e = ''s1'') example_log) = {''intro''}"
proof -
  let ?r = "\<lparr>sessionId = ''s1'', startTime = 100, endTime = 200, choiceCount = 2,
     paths = {''intro''}, durationMs = 100\<rparr>"
  have mem: "?r \<in> set (compute_session_summaries example_log)"
    by (simp add: example_session_summaries)
  with session_summaries_per_session [of example_log]
  have "startTime ?r = Min (timestamp_of ` set (filter (\<lambda>e. session_of e = sessionId ?r) example_log)) \<and>
      endTime ?r = Max (timestamp_of ` set (filter (\<lambda>e. session_of e = sessionId ?r) example_log)) \<and>
      choiceCount ?r =
        int (length (filter is_choice (filter (\<lambda>e. session_of e = sessionId ?r) example_log))) \<and>
      paths ?r = seen_paths (filter (\<lambda>e. session_of e = sessionId ?r) example_log) \<and>
      durationMs ?r = endTime ?r - startTime ?r"
    by blast
  with mem show ?thesis by simp
qed

section \<open>Properties of the top paths\<close>

lemma set_first_seen: "set (first_seen xs) = set xs"
  by (induction xs) auto

lemma distinct_first_seen: "distinct (first_seen xs)"
  by (induction xs) auto

lemma first_seen_filter: "first_seen (filter P xs) = filter P (first_seen xs)"
proof (induction xs)
  case Nil
  show ?case by simp
next
  case (Cons x xs)
  show ?case
  proof (cases "P x")
    case True
    with Cons show ?thesis by (simp add: conj_commute)
  next
    case False
    then have "filter (\<lambda>y. y \<noteq> x \<and> P y) (first_seen xs) = filter P (first_seen xs)"
      by (intro filter_cong) auto
    with False Cons show ?thesis by simp
  qed
qed

lemma first_seen_sorted:
  "sorted_wrt (\<lambda>p q. first_index xs p < first_index xs q) (first_seen xs)"
proof (induction xs)
  case Nil
  show ?case by simp
next
  case (Cons x xs)
  have "sorted_wrt (\<lambda>p q. first_index xs p < first_index xs q)
          (filter (\<lambda>y. y \<noteq> x) (first_seen xs))"
    using Cons by (rule sorted_wrt_filter)
  then have "sorted_wrt (\<lambda>p q. first_index (x # xs) p < first_index (x # xs) q)
          (filter (\<lambda>y. y \<noteq> x) (first_seen xs))"
    by (rule sorted_wrt_mono_rel [rotated]) (auto simp: first_index_def)
  then show ?case by (auto simp: first_index_def)
qed

lemma keys_count_step:
  "map fst (count_step d c) =
     (if path_of c \<in> fst ` set d then map fst d else map fst d @ [path_of c])"
  by (simp add: count_step_def Let_def update_keys)

lemma keys_fold_count_step:
  "map fst (foldl count_step d cs) =
     map fst d @ first_seen (filter (\<lambda>p. p \<notin> fst ` set d) (map path_of cs))"
proof (induction cs arbitrary: d)
  case Nil
  show ?case by simp
next
  case (Cons c cs)
  show ?case
  proof (cases "path_of c \<in> fst ` set d")
    case True
    then have "map fst (count_step d c) = map fst d" by (simp add: keys_count_step)
    moreover from this have "fst ` set (count_step d c) = fst ` set d"
      by (metis list.set_map)
    ultimately show ?thesis using True by (simp add: Cons.IH)
  next
    case False
    then have k: "map fst (count_step d c) = map fst d @ [path_of c]"
      by (simp add: keys_count_step)
    then have s: "fst ` set (count_step d c) = insert (path_of c) (fst ` set d)"
      by (metis list.set_map set_append Un_insert_right list.simps(15) sup_bot.right_neutral
          set_simps(1) Un_commute insert_is_Un)
    have "filter (\<lambda>p. p \<notin> insert (path_of c) (fst ` set d)) (map path_of cs) =
          filter (\<lambda>y. y \<noteq> path_of c) (filter (\<lambda>p. p \<notin> fst ` set d) (map path_of cs))"
      by (simp add: conj_commute)
    then show ?thesis
      using False by (simp add: Cons.IH k s first_seen_filter del: filter_filter)
  qed
qed

lemma map_of_count_step:
  "map_of (count_step d c) p =
     (if path_of c = p then Some ((case map_of d p of None \<Rightarrow> 0 | Some n \<Rightarrow> n) + 1)
      else map_of d p)"
  by (auto simp: count_step_def Let_def update_conv')

lemma map_of_fold_count_step:
  "map_of (foldl count_step d cs) p =
     (if p \<in> set (map path_of cs)
      then Some ((case map_of d p of None \<Rightarrow> 0 | Some n \<Rightarrow> n) +
                 int (count_list (map path_of cs) p))
      else map_of d p)"
proof (induction cs arbitrary: d)
  case Nil
  show ?case by simp
next
  case (Cons c cs)
  show ?case
    by (simp add: Cons.IH map_of_count_step)
qed

lemma insort_key_lex:
  assumes "sorted_wrt (\<lambda>a b. f a < f b \<or> (f a = f b \<and> Q a b)) ys"
    and "\<forall>y \<in> set ys. Q x y"
  shows "sorted_wrt (\<lambda>a b. f a < f b \<or> (f a = f b \<and> Q a b)) (insort_key f x ys)"
  using assms
proof (induction ys)
  case Nil
  show ?case by simp
next
  case (Cons y ys)
  show ?case
  proof (cases "f x \<le> f y")
    case True
    have "f x < f z \<or> (f x = f z \<and> Q x z)" if "z \<in> set (y # ys)" for z
    proof -
      from that Cons.prems(1) have "f y \<le> f z" by auto
      with True have "f x \<le> f z" by simp
      moreover from that Cons.prems(2) have "Q x z" by blast
      ultimately show ?thesis by auto
    qed
    with True Cons.prems(1) show ?thesis by simp
  next
    case False
    from Cons have "sorted_wrt (\<lambda>a b. f a < f b \<or> (f a = f b \<and> Q a b)) (insort_key f x ys)"
      by simp
    with False Cons.prems(1) show ?thesis by (auto simp: set_insort_key)
  qed
qed

lemma sort_key_lex:
  "sorted_wrt Q xs \<Longrightarrow> sorted_wrt (\<lambda>a b. f a < f b \<or> (f a = f b \<and> Q a b)) (sort_key f xs)"
proof (induction xs)
  case Nil
  show ?case by simp
next
  case (Cons x xs)
  then have "sorted_wrt (\<lambda>a b. f a < f b \<or> (f a = f b \<and> Q a b)) (sort_key f xs)"
    and "\<forall>y \<in> set (sort_key f xs). Q x y"
    by simp_all
  then show ?case
    using insort_key_lex [of f Q "sort_key f xs" x] by simp
qed

lemma sorted_reverse_lex:
  assumes "sorted_wrt Q xs"
  shows "sorted_wrt (\<lambda>a b. key a > key b \<or> (key a = key b \<and> Q a b)) (sorted_reverse key xs)"
proof -
  from assms have "sorted_wrt (\<lambda>a b. Q b a) (rev xs)"
    by (simp add: sorted_wrt_rev)
  then have "sorted_wrt (\<lambda>a b. key a < key b \<or> (key a = key b \<and> Q b a)) (sort_key key (rev xs))"
    by (rule sort_key_lex)
  then have "sorted_wrt (\<lambda>b a. key a < key b \<or> (key a = key b \<and> Q b a)) (sorted_reverse key xs)"
    unfolding sorted_reverse_def by (simp add: sorted_wrt_rev)
  then show ?thesis
    by (rule sorted_wrt_mono_rel [rotated]) auto
qed

lemma set_sorted_reverse: "set (sorted_reverse key xs) = set xs"
  by (simp add: sorted_reverse_def)

lemma length_sorted_reverse: "length (sorted_reverse key xs) = length xs"
  by (simp add: sorted_reverse_def)

lemma distinct_sorted_reverse: "distinct (sorted_reverse key xs) = distinct xs"
  by (simp add: sorted_reverse_def)

lemma keys_path_counts: "map fst (path_counts_of entries) = first_seen (choice_paths entries)"
  using keys_fold_count_step [of "[]" "filter is_choice entries"]
  by (simp add: path_counts_of_def choice_paths_def)

lemma value_path_counts:
  assumes "(p, n) \<in> set (path_counts_of entries)"
  shows "n = int (count_list (choice_paths entries) p) \<and> p \<in> set (choice_paths entries)"
proof -
  have d: "distinct (map fst (path_counts_of entries))"
    by (simp add: keys_path_counts distinct_first_seen)
  from assms have "p \<in> set (map fst (path_counts_of entries))" by force
  then have p: "p \<in> set (choice_paths entries)"
    by (simp add: keys_path_counts set_first_seen)
  from d assms have "map_of (path_counts_of entries) p = Some n" by simp
  with p show ?thesis
    using map_of_fold_count_step [of "[]" "filter is_choice entries" p]
    by (simp add: path_counts_of_def choice_paths_def)
qed

lemma path_counts_sorted:
  "sorted_wrt
     (\<lambda>a b. first_index (choice_paths entries) (fst a) < first_index (choice_paths entries) (fst b))
     (path_counts_of entries)"
  using first_seen_sorted [of "choice_paths entries"]
  unfolding keys_path_counts [symmetric] by (simp add: sorted_wrt_map)

lemma top_paths_unfold:
  "top_paths entries limit =
     map (\<lambda>(p, n). \<lparr>path = p, count = n\<rparr>)
       (slice_to (sorted_reverse snd (path_counts_of entries)) limit)"
  by (simp add: top_paths_def path_counts_of_def Let_def)

lemma slice_to_nonneg: "0 \<le> limit \<Longrightarrow> slice_to xs limit = take (nat limit) xs"
  by (simp add: slice_to_def)

lemma top_paths_ranked:
  assumes "0 \<le> limit"
  shows "sorted_wrt (ranks_before (choice_paths entries)) (top_paths entries limit)"
proof -
  let ?ps = "choice_paths entries"
  have "sorted_wrt (\<lambda>a b. snd a > snd b \<or>
          (snd a = snd b \<and> first_index ?ps (fst a) < first_index ?ps (fst b)))
        (sorted_reverse snd (path_counts_of entries))"
    using path_counts_sorted by (rule sorted_reverse_lex)
  then have "sorted_wrt (\<lambda>a b. snd a > snd b \<or>
          (snd a = snd b \<and> first_index ?ps (fst a) < first_index ?ps (fst b)))
        (take (nat limit) (sorted_reverse snd (path_counts_of entries)))"
    by (rule sorted_wrt_take)
  then show ?thesis
    unfolding top_paths_unfold slice_to_nonneg [OF assms]
    by (simp add: sorted_wrt_map ranks_before_def case_prod_beta)
qed

lemma top_paths_paths:
  "map path (top_paths entries limit) =
     map fst (slice_to (sorted_reverse snd (path_counts_of entries)) limit)"
  unfolding top_paths_unfold by (simp add: case_prod_beta)

lemma distinct_path_counts: "distinct (map fst (sorted_reverse snd (path_counts_of entries)))"
proof -
  have "distinct (map fst (path_counts_of entries))"
    by (simp add: keys_path_counts distinct_first_seen)
  then have "distinct (path_counts_of entries) \<and> inj_on fst (set (path_counts_of entries))"
    by (simp add: distinct_map)
  then show ?thesis
    by (simp add: distinct_map distinct_sorted_reverse set_sorted_reverse)
qed

lemma length_path_counts: "length (path_counts_of entries) = card (set (choice_paths entries))"
proof -
  have "length (path_counts_of entries) = length (first_seen (choice_paths entries))"
    using keys_path_counts [of entries] by (metis length_map)
  also have "\<dots> = card (set (first_seen (choice_paths entries)))"
    by (simp add: distinct_card distinct_first_seen)
  finally show ?thesis by (simp add: set_first_seen)
qed

lemma top_paths_outrank_rest:
  assumes "0 \<le> limit"
    and "r \<in> set (top_paths entries limit)"
    and "p \<in> set (choice_paths entries)"
    and "p \<notin> path ` set (top_paths entries limit)"
  shows "ranks_before (choice_paths entries) r
           \<lparr>path = p, count = int (count_list (choice_paths entries) p)\<rparr>"
proof -
  let ?ps = "choice_paths entries"
  let ?s = "sorted_reverse snd (path_counts_of entries)"
  let ?R = "\<lambda>a b. snd a > snd b \<or>
          (snd a = snd b \<and> first_index ?ps (fst a) < first_index ?ps (fst b))"
  have "sorted_wrt ?R ?s"
    using path_counts_sorted by (rule sorted_reverse_lex)
  then have "sorted_wrt ?R (take (nat limit) ?s @ drop (nat limit) ?s)" by simp
  then have split: "\<forall>x \<in> set (take (nat limit) ?s). \<forall>y \<in> set (drop (nat limit) ?s). ?R x y"
    unfolding sorted_wrt_append by blast
  from assms(2) obtain q n where qn: "(q, n) \<in> set (take (nat limit) ?s)"
    and r: "r = \<lparr>path = q, count = n\<rparr>"
    unfolding top_paths_unfold slice_to_nonneg [OF assms(1)] by auto
  from assms(3) have "p \<in> set (map fst (path_counts_of entries))"
    by (simp add: keys_path_counts set_first_seen)
  then obtain m where pm: "(p, m) \<in> set (path_counts_of entries)" by auto
  from value_path_counts [OF pm] have m: "m = int (count_list ?ps p)" by simp
  have "(p, m) \<notin> set (take (nat limit) ?s)"
  proof
    assume "(p, m) \<in> set (take (nat limit) ?s)"
    then have "\<lparr>path = p, count = m\<rparr> \<in> set (top_paths entries limit)"
      unfolding top_paths_unfold slice_to_nonneg [OF assms(1)] by force
    then have "p \<in> path ` set (top_paths entries limit)" by force
    with assms(4) show False by simp
  qed
  moreover from pm have "(p, m) \<in> set ?s"
    by (simp add: set_sorted_reverse)
  ultimately have "(p, m) \<in> set (drop (nat limit) ?s)"
    by (metis Un_iff append_take_drop_id set_append)
  with split qn have "?R (q, n) (p, m)" by blast
  then show ?thesis by (simp add: ranks_before_def r m)
qed

lemma top_paths_take_full:
  assumes "0 \<le> limit"
  shows "top_paths entries limit =
           take (nat limit) (top_paths entries (int (card (set (choice_paths entries)))))"
proof -
  let ?s = "sorted_reverse snd (path_counts_of entries)"
  have "length ?s = card (set (choice_paths entries))"
    by (simp add: length_sorted_reverse length_path_counts)
  then have "take (nat (int (card (set (choice_paths entries))))) ?s = ?s" by simp
  then show ?thesis
    unfolding top_paths_unfold slice_to_nonneg [OF assms]
    by (simp add: slice_to_nonneg take_map)
qed

text \<open>
  Claim C6. For a non-negative limit, every pair returned by \<^verbatim>\<open>top_paths\<close> carries a path of
  some choice entry (\<^verbatim>\<open>"unknown"\<close> when \<^verbatim>\<open>knotPath\<close> is absent) with the number of choice
  entries on that path; no path is returned twice; the pairs are in descending order of
  count, and among equal counts the path seen first in the log comes first; every
  returned pair ranks, in that same order, before every path that is not returned, so
  that the result is the top of the ranking: it is the first \<open>limit\<close> pairs of the list
  returned when the limit is the number of distinct paths; the result has \<open>limit\<close> pairs, or
  all of them when there are fewer distinct paths; and when the limit is at least the
  number of distinct paths, every distinct path is returned.
\<close>

theorem top_paths_counts_ranked_complete:
  assumes "0 \<le> limit"
  shows "(\<forall>r \<in> set (top_paths entries limit).
            path r \<in> set (choice_paths entries) \<and>
            count r = int (count_list (choice_paths entries) (path r))) \<and>
         distinct (map path (top_paths entries limit)) \<and>
         sorted_wrt (ranks_before (choice_paths entries)) (top_paths entries limit) \<and>
         (\<forall>r \<in> set (top_paths entries limit). \<forall>p \<in> set (choice_paths entries).
            p \<notin> path ` set (top_paths entries limit) \<longrightarrow>
            ranks_before (choice_paths entries) r
              \<lparr>path = p, count = int (count_list (choice_paths entries) p)\<rparr>) \<and>
         top_paths entries limit =
           take (nat limit) (top_paths entries (int (card (set (choice_paths entries))))) \<and>
         length (top_paths entries limit) = min (nat limit) (card (set (choice_paths entries))) \<and>
         (int (card (set (choice_paths entries))) \<le> limit \<longrightarrow>
            path ` set (top_paths entries limit) = set (choice_paths entries))"
proof -
  let ?s = "sorted_reverse snd (path_counts_of entries)"
  have 1: "path r \<in> set (choice_paths entries) \<and>
           count r = int (count_list (choice_paths entries) (path r))"
    if "r \<in> set (top_paths entries limit)" for r
  proof -
    from that obtain p n where pn: "(p, n) \<in> set (take (nat limit) ?s)"
      and r: "r = \<lparr>path = p, count = n\<rparr>"
      unfolding top_paths_unfold slice_to_nonneg [OF assms] by auto
    from pn have "(p, n) \<in> set ?s" by (rule in_set_takeD)
    then have "(p, n) \<in> set (path_counts_of entries)" by (simp add: set_sorted_reverse)
    from value_path_counts [OF this] show ?thesis by (simp add: r)
  qed
  have 2: "distinct (map path (top_paths entries limit))"
    unfolding top_paths_paths slice_to_nonneg [OF assms]
    using distinct_path_counts [of entries] by (simp add: take_map [symmetric] distinct_take)
  have 3: "sorted_wrt (ranks_before (choice_paths entries)) (top_paths entries limit)"
    using assms by (rule top_paths_ranked)
  have 4: "length (top_paths entries limit) = min (nat limit) (card (set (choice_paths entries)))"
    unfolding top_paths_unfold slice_to_nonneg [OF assms]
    by (simp add: length_sorted_reverse length_path_counts min.commute)
  have 5: "path ` set (top_paths entries limit) = set (choice_paths entries)"
    if "int (card (set (choice_paths entries))) \<le> limit"
  proof -
    from that have "length ?s \<le> nat limit"
      by (simp add: length_sorted_reverse length_path_counts)
    then have "take (nat limit) ?s = ?s" by simp
    then have "map path (top_paths entries limit) = map fst ?s"
      unfolding top_paths_paths slice_to_nonneg [OF assms] by simp
    then have "set (map path (top_paths entries limit)) = set (map fst (path_counts_of entries))"
      by (simp add: set_sorted_reverse)
    then show ?thesis
      by (simp add: keys_path_counts set_first_seen)
  qed
  have 6: "ranks_before (choice_paths entries) r
              \<lparr>path = p, count = int (count_list (choice_paths entries) p)\<rparr>"
    if "r \<in> set (top_paths entries limit)" and "p \<in> set (choice_paths entries)"
      and "p \<notin> path ` set (top_paths entries limit)" for r p
    using assms that by (rule top_paths_outrank_rest)
  have 7: "top_paths entries limit =
           take (nat limit) (top_paths entries (int (card (set (choice_paths entries)))))"
    using assms by (rule top_paths_take_full)
  from 1 2 3 4 5 6 7 show ?thesis by blast
qed

lemma tie_log_top_paths:
  "top_paths tie_log 5 =
     [\<lparr>path = ''b'', count = 2\<rparr>, \<lparr>path = ''a'', count = 2\<rparr>, \<lparr>path = ''unknown'', count = 1\<rparr>]"
  by (simp add: top_paths_def tie_log_def choice_on_def is_choice_def count_step_def
      path_of_def payload_or_empty_def sorted_reverse_def slice_to_def Let_def)

lemma tie_log_choice_paths:
  "choice_paths tie_log = [''b'', ''a'', ''b'', ''a'', ''unknown'']"
  by (simp add: choice_paths_def tie_log_def choice_on_def is_choice_def path_of_def
      payload_or_empty_def)

lemma rank_log_top_two:
  "top_paths rank_log 2 = [\<lparr>path = ''b'', count = 2\<rparr>, \<lparr>path = ''a'', count = 2\<rparr>]"
  by (simp add: top_paths_def rank_log_def choice_on_def is_choice_def count_step_def
      path_of_def payload_or_empty_def sorted_reverse_def slice_to_def Let_def)

lemma rank_log_top_all:
  "top_paths rank_log 5 =
     [\<lparr>path = ''b'', count = 2\<rparr>, \<lparr>path = ''a'', count = 2\<rparr>, \<lparr>path = ''c'', count = 1\<rparr>]"
  by (simp add: top_paths_def rank_log_def choice_on_def is_choice_def count_step_def
      path_of_def payload_or_empty_def sorted_reverse_def slice_to_def Let_def)

lemma rank_log_choice_paths:
  "choice_paths rank_log = [''c'', ''b'', ''a'', ''b'', ''a'']"
  by (simp add: choice_paths_def rank_log_def choice_on_def is_choice_def path_of_def
      payload_or_empty_def)

text \<open>
  The log with first-seen order \<^verbatim>\<open>c\<close>, \<^verbatim>\<open>b\<close>, \<^verbatim>\<open>a\<close>. With limit 2 the result is \<^verbatim>\<open>b\<close> then \<^verbatim>\<open>a\<close>
  (both count 2, \<^verbatim>\<open>b\<close> seen first) and \<^verbatim>\<open>c\<close>, seen first of all but counted once, is cut;
  with limit 5 the three paths are returned.
\<close>

theorem top_paths_counts_ranked_complete_witness:
  "(0::int) \<le> 2 \<and>
   top_paths rank_log 2 = [\<lparr>path = ''b'', count = 2\<rparr>, \<lparr>path = ''a'', count = 2\<rparr>] \<and>
   \<lparr>path = ''a'', count = 2\<rparr> \<in> set (top_paths rank_log 2) \<and>
   ''c'' \<in> set (choice_paths rank_log) \<and>
   ''c'' \<notin> path ` set (top_paths rank_log 2) \<and>
   (2::int) = int (count_list (choice_paths rank_log) ''a'') \<and>
   sorted_wrt (ranks_before (choice_paths rank_log))
     [\<lparr>path = ''b'', count = 2\<rparr>, \<lparr>path = ''a'', count = 2\<rparr>] \<and>
   ranks_before (choice_paths rank_log) \<lparr>path = ''a'', count = 2\<rparr>
     \<lparr>path = ''c'', count = int (count_list (choice_paths rank_log) ''c'')\<rparr> \<and>
   [\<lparr>path = ''b'', count = 2\<rparr>, \<lparr>path = ''a'', count = 2\<rparr>] =
     take (nat 2) (top_paths rank_log (int (card (set (choice_paths rank_log))))) \<and>
   (0::int) \<le> 5 \<and> int (card (set (choice_paths rank_log))) \<le> 5 \<and>
   path ` set (top_paths rank_log 5) = set (choice_paths rank_log)"
proof -
  let ?a = "\<lparr>path = ''a'', count = 2\<rparr>"
  let ?top = "[\<lparr>path = ''b'', count = 2\<rparr>, ?a]"
  have h2: "(0::int) \<le> 2" and h5: "(0::int) \<le> 5" by simp_all
  have m: "?a \<in> set ?top" by simp
  have c1: "''c'' \<in> set (choice_paths rank_log)"
    by (simp add: rank_log_choice_paths)
  have c2: "''c'' \<notin> path ` set ?top" by simp
  have "card (set (choice_paths rank_log)) \<le> length (choice_paths rank_log)"
    by (rule card_length)
  then have c: "int (card (set (choice_paths rank_log))) \<le> 5"
    by (simp add: rank_log_choice_paths)
  note cut = top_paths_counts_ranked_complete [OF h2, of rank_log, unfolded rank_log_top_two]
  from cut m have n: "count ?a = int (count_list (choice_paths rank_log) (path ?a))"
    by blast
  from cut have s: "sorted_wrt (ranks_before (choice_paths rank_log)) ?top"
    by blast
  from cut m c1 c2 have r: "ranks_before (choice_paths rank_log) ?a
           \<lparr>path = ''c'', count = int (count_list (choice_paths rank_log) ''c'')\<rparr>"
    by blast
  from cut have t: "?top =
           take (nat 2) (top_paths rank_log (int (card (set (choice_paths rank_log)))))"
    by blast
  from top_paths_counts_ranked_complete [OF h5, of rank_log] c
  have a: "path ` set (top_paths rank_log 5) = set (choice_paths rank_log)"
    by blast
  from n have n': "(2::int) = int (count_list (choice_paths rank_log) ''a'')" by simp
  show ?thesis
    unfolding rank_log_top_two
    using h2 h5 m c1 c2 c n' s r t a by blast
qed

text \<open>
  Claim C3. For limits \<open>0 \<le> N \<le> M\<close>, \<^verbatim>\<open>top_paths(entries, N)\<close> is a prefix, hence a
  subsequence, of \<^verbatim>\<open>top_paths(entries, M)\<close>, and both lists are in descending order of count.
\<close>

theorem top_paths_prefix_sorted:
  assumes "0 \<le> N" and "N \<le> M"
  shows "prefix (top_paths entries N) (top_paths entries M) \<and>
         subseq (top_paths entries N) (top_paths entries M) \<and>
         sorted_wrt (\<lambda>a b. count a \<ge> count b) (top_paths entries N) \<and>
         sorted_wrt (\<lambda>a b. count a \<ge> count b) (top_paths entries M)"
proof -
  let ?s = "sorted_reverse snd (path_counts_of entries)"
  from assms have M: "0 \<le> M" by simp
  from assms have "nat N \<le> nat M" by simp
  then have "prefix (take (nat N) ?s) (take (nat M) ?s)"
    by (metis min.absorb_iff1 take_is_prefix take_take)
  then have p: "prefix (top_paths entries N) (top_paths entries M)"
    unfolding top_paths_unfold slice_to_nonneg [OF assms(1)] slice_to_nonneg [OF M]
    by (rule map_mono_prefix)
  have s: "sorted_wrt (\<lambda>a b. count a \<ge> count b) (top_paths entries k)" if "0 \<le> k" for k
    using top_paths_ranked [OF that, of entries]
    by (rule sorted_wrt_mono_rel [rotated]) (auto simp: ranks_before_def)
  from p s [OF assms(1)] s [OF M] show ?thesis
    by (simp add: prefix_imp_subseq)
qed

text \<open>The log with ties, limits 1 and 5.\<close>

theorem top_paths_prefix_sorted_witness:
  "(0::int) \<le> 1 \<and> (1::int) \<le> 5 \<and>
   top_paths tie_log 1 = [\<lparr>path = ''b'', count = 2\<rparr>] \<and>
   prefix (top_paths tie_log 1) (top_paths tie_log 5) \<and>
   subseq (top_paths tie_log 1) (top_paths tie_log 5) \<and>
   sorted_wrt (\<lambda>a b. count a \<ge> count b) (top_paths tie_log 1) \<and>
   sorted_wrt (\<lambda>a b. count a \<ge> count b) (top_paths tie_log 5)"
proof -
  have h1: "(0::int) \<le> 1" and h2: "(1::int) \<le> 5" by simp_all
  have "top_paths tie_log 1 = [\<lparr>path = ''b'', count = 2\<rparr>]"
    by (simp add: top_paths_def tie_log_def choice_on_def is_choice_def count_step_def
      path_of_def payload_or_empty_def sorted_reverse_def slice_to_def Let_def)
  with top_paths_prefix_sorted [OF h1 h2, of tie_log] show ?thesis by simp
qed

section \<open>Properties of the choice statistics\<close>

lemma fst_choice_step:
  "fst (choice_step st c) =
     AList.update (knot_of c)
       ((case map_of (fst st) (knot_of c) of None \<Rightarrow> 0 | Some n \<Rightarrow> n) + 1) (fst st)"
  by (simp add: choice_step_def Let_def case_prod_beta)

lemma snd_choice_step:
  "snd (choice_step st c) =
     AList.update (key_of c)
       ((case map_of (snd st) (key_of c) of
           None \<Rightarrow> \<lparr>cc_count = 0, cc_knot = knot_of c\<rparr> | Some d \<Rightarrow> d)
        \<lparr>cc_count := cc_count (case map_of (snd st) (key_of c) of
           None \<Rightarrow> \<lparr>cc_count = 0, cc_knot = knot_of c\<rparr> | Some d \<Rightarrow> d) + 1\<rparr>) (snd st)"
  by (simp add: choice_step_def Let_def case_prod_beta)

lemma knot_totals_fold:
  "map_of (fst (foldl choice_step st cs)) k =
     (if filter (\<lambda>c. knot_of c = k) cs \<noteq> []
      then Some ((case map_of (fst st) k of None \<Rightarrow> 0 | Some n \<Rightarrow> n) +
                 int (length (filter (\<lambda>c. knot_of c = k) cs)))
      else map_of (fst st) k)"
proof (induction cs arbitrary: st)
  case Nil
  show ?case by simp
next
  case (Cons c cs)
  show ?case
    by (simp add: Cons.IH fst_choice_step update_conv')
qed

lemma choice_counts_fold:
  "map_option cc_count (map_of (snd (foldl choice_step st cs)) key) =
     (if filter (\<lambda>c. key_of c = key) cs \<noteq> []
      then Some ((case map_of (snd st) key of None \<Rightarrow> 0 | Some d \<Rightarrow> cc_count d) +
                 int (length (filter (\<lambda>c. key_of c = key) cs)))
      else map_option cc_count (map_of (snd st) key))"
proof (induction cs arbitrary: st)
  case Nil
  show ?case by simp
next
  case (Cons c cs)
  show ?case
    by (simp add: Cons.IH snd_choice_step update_conv' split: option.splits)
qed

lemma knot_totals_lookup:
  "map_of (fst (foldl choice_step ([], []) (filter is_choice entries))) k =
     (if 0 < knot_total_count entries k then Some (knot_total_count entries k) else None)"
  by (simp add: knot_totals_fold knot_total_count_def)

lemma choice_counts_lookup:
  "map_option cc_count (map_of (snd (foldl choice_step ([], []) (filter is_choice entries))) key) =
     (if 0 < observed_count entries key then Some (observed_count entries key) else None)"
  by (simp add: choice_counts_fold observed_count_def)

lemma choice_response_value:
  "choice_response (fst (foldl choice_step ([], []) (filter is_choice entries)))
     (snd (foldl choice_step ([], []) (filter is_choice entries))) choice_id =
   Inr (stat_of entries choice_id)"
proof -
  let ?kt = "fst (foldl choice_step ([], []) (filter is_choice entries))"
  let ?cc = "snd (foldl choice_step ([], []) (filter is_choice entries))"
  have d: "(case map_of ?kt (query_knot choice_id) of None \<Rightarrow> 1 | Some n \<Rightarrow> n) =
           denominator_of entries choice_id"
    by (simp add: knot_totals_lookup denominator_of_def)
  have pos: "denominator_of entries choice_id \<noteq> 0"
    by (simp add: denominator_of_def)
  show ?thesis
  proof (cases "map_of ?cc choice_id")
    case None
    with choice_counts_lookup [of entries choice_id]
    have "\<not> 0 < observed_count entries choice_id" by (simp split: if_splits)
    with None show ?thesis by (simp add: choice_response_def stat_of_def)
  next
    case (Some data)
    with choice_counts_lookup [of entries choice_id]
    have "0 < observed_count entries choice_id" and "cc_count data = observed_count entries choice_id"
      by (simp_all split: if_splits)
    with Some d pos show ?thesis
      by (simp add: choice_response_def stat_of_def Let_def percentage_of_def percent_def)
  qed
qed

lemma build_result_total:
  assumes "\<And>choice_id. choice_response kt cc choice_id = Inr (f choice_id)"
  shows "\<exists>res. build_result kt cc result ids = Inr res \<and>
           (\<forall>k. map_of res k = (if k \<in> set ids then Some (f k) else map_of result k))"
proof (induction ids arbitrary: result)
  case Nil
  show ?case by simp
next
  case (Cons a ids)
  from Cons.IH [of "AList.update a (f a) result"] show ?case
    by (auto simp: assms update_conv')
qed

lemma compute_choice_stats_lookup:
  "\<exists>res. compute_choice_stats entries ids = Inr res \<and>
     (\<forall>k. map_of res k = (if k \<in> set ids then Some (stat_of entries k) else None))"
proof -
  let ?kt = "fst (foldl choice_step ([], []) (filter is_choice entries))"
  let ?cc = "snd (foldl choice_step ([], []) (filter is_choice entries))"
  from build_result_total [of ?kt ?cc "stat_of entries" "[]" ids]
  obtain res where "build_result ?kt ?cc [] ids = Inr res"
    and "\<forall>k. map_of res k = (if k \<in> set ids then Some (stat_of entries k) else map_of [] k)"
    using choice_response_value by blast
  then show ?thesis
    by (auto simp: compute_choice_stats_def Let_def case_prod_beta)
qed

lemma bit_len_le: "m < 2 ^ k \<Longrightarrow> bit_len m \<le> int k"
proof (induction k arbitrary: m)
  case 0
  then show ?case by (subst bit_len.simps) simp
next
  case (Suc k)
  show ?case
  proof (cases "m \<le> 0")
    case True
    then show ?thesis by (subst bit_len.simps) simp
  next
    case False
    from Suc.prems have "m div 2 < 2 ^ k" by simp
    then have "bit_len (m div 2) \<le> int k" by (rule Suc.IH)
    with False show ?thesis by (subst bit_len.simps) simp
  qed
qed

lemma bit_len_one: "bit_len 1 = 1"
  by (simp add: bit_len.simps)

lemma quotient_of_of_int: "quotient_of (of_int m) = (m, 1)"
  by (metis quotient_of_int of_int_rat Rat.of_int_def)

lemma binade_int_le:
  assumes "0 < m" and "m < 2 ^ 53"
  shows "binade (of_int m) \<le> 52"
proof -
  from assms(2) have "bit_len m \<le> int 53" by (rule bit_len_le)
  then show ?thesis
    by (simp add: binade_def quotient_of_of_int bit_len_one Let_def)
qed

lemma round_half_even_int: "round_half_even (of_int z) = z"
  by (simp add: round_half_even_def)

lemma to_float_int:
  assumes "0 < m" and "m < 2 ^ 53"
  shows "to_float (of_int m) = of_int m"
proof -
  define j where "j = nat (52 - binade (of_int m))"
  from binade_int_le [OF assms] have e: "binade (of_int m) - 52 = - int j"
    by (simp add: j_def)
  have abs: "\<bar>of_int m :: rat\<bar> = of_int m" using assms(1) by simp
  have ulp: "(2::rat) powi (binade \<bar>of_int m\<bar> - 52) = inverse (2 ^ j)"
    unfolding abs e by (simp add: power_int_minus)
  have q: "(of_int m :: rat) / inverse (2 ^ j) = of_int (m * 2 ^ j)"
    by (simp add: field_simps)
  from assms(1) have nz: "(of_int m :: rat) \<noteq> 0" by simp
  show ?thesis
    unfolding to_float_def Let_def ulp q round_half_even_int using nz
    by (simp add: field_simps)
qed

lemma percent_denominator_one:
  assumes "0 < n" and "100 * n < 2 ^ 53"
  shows "percent n 1 = 100 * n"
proof -
  from assms have n: "n < 2 ^ 53" by simp
  from assms have p: "0 < n * 100" "n * 100 < 2 ^ 53" by simp_all
  have "to_float (of_int n / of_int 1) = of_int n"
    using to_float_int [OF assms(1) n] by simp
  moreover have "to_float (of_int n * 100) = of_int (n * 100)"
    using to_float_int [OF p] by simp
  ultimately have "percent n 1 = round_half_even (of_int (n * 100))"
    by (simp add: percent_def)
  then show ?thesis by (simp only: round_half_even_int mult.commute)
qed

lemma fst_split_colon: "fst (split_colon s) = takeWhile (\<lambda>c. c \<noteq> CHR '':'') s"
  by (induction s) (auto simp: case_prod_beta)

lemma query_knot_takeWhile: "query_knot s = takeWhile (\<lambda>c. c \<noteq> CHR '':'') s"
proof (cases "CHR '':'' \<in> set s")
  case True
  then show ?thesis by (simp add: query_knot_def fst_split_colon)
next
  case False
  then have "takeWhile (\<lambda>c. c \<noteq> CHR '':'') s = s"
    by auto
  moreover from False have "query_knot s = s"
    by (simp add: query_knot_def)
  ultimately show ?thesis by (simp only:)
qed

lemma takeWhile_before_colon:
  "CHR '':'' \<notin> set k \<Longrightarrow> takeWhile (\<lambda>c. c \<noteq> CHR '':'') (k @ CHR '':'' # s) = k"
proof -
  assume "CHR '':'' \<notin> set k"
  then have "takeWhile (\<lambda>c. c \<noteq> CHR '':'') k = k"
    by auto
  moreover have "takeWhile (\<lambda>c. c \<noteq> CHR '':'') (k @ CHR '':'' # s) =
                 takeWhile (\<lambda>c. c \<noteq> CHR '':'') k"
    by (rule takeWhile_tail) simp
  ultimately show ?thesis by (simp only:)
qed

lemma query_knot_key: "CHR '':'' \<notin> set k \<Longrightarrow> query_knot (k @ '':'' @ s) = k"
  by (simp add: query_knot_takeWhile takeWhile_before_colon)

lemma key_eq:
  assumes "k @ '':'' @ str_int i = k' @ '':'' @ str_int j"
  shows "k = k' \<and> i = j"
proof -
  have tw: "takeWhile (\<lambda>c. c \<noteq> CHR '':'') (rev (x @ '':'' @ str_int n)) = rev (str_int n)" for x n
    using takeWhile_before_colon [of "rev (str_int n)" "rev x"] str_int_no_colon [of n] by simp
  from assms have "rev (str_int i) = rev (str_int j)"
    using tw [of k i] tw [of k' j] by simp
  then have s: "str_int i = str_int j" by simp
  then have "i = j" by (rule str_int_inj)
  moreover from assms s have "k = k'" by simp
  ultimately show ?thesis by simp
qed

lemma key_of_eq_iff: "key_of c = k @ '':'' @ str_int i \<longleftrightarrow> knot_of c = k \<and> index_of c = i"
  unfolding key_of_def using key_eq by blast

lemma key_of_has_colon: "CHR '':'' \<in> set (key_of c)"
  by (simp add: key_of_def)

lemma observed_zero_without_colon:
  "CHR '':'' \<notin> set choice_id \<Longrightarrow> observed_count entries choice_id = 0"
  using key_of_has_colon by (auto simp: observed_count_def filter_empty_conv)

lemma length_filter_imp:
  "(\<And>x. P x \<Longrightarrow> Q x) \<Longrightarrow> length (filter P xs) \<le> length (filter Q xs)"
  by (induction xs) auto

lemma observed_le_knot_total:
  "observed_count entries (k @ '':'' @ str_int i) \<le> knot_total_count entries k"
proof -
  have "length (filter (\<lambda>c. key_of c = k @ '':'' @ str_int i) (filter is_choice entries)) \<le>
        length (filter (\<lambda>c. knot_of c = k) (filter is_choice entries))"
    by (rule length_filter_imp) (simp only: key_of_eq_iff)
  then show ?thesis
    unfolding observed_count_def knot_total_count_def by simp
qed

lemma stat_in_result:
  assumes "choice_id \<in> set ids"
  shows "\<exists>res. compute_choice_stats entries ids = Inr res \<and>
           map_of res choice_id = Some (stat_of entries choice_id)"
  using compute_choice_stats_lookup [of entries ids] assms by auto

text \<open>
  When the knot of a requested identifier \<^verbatim>\<open><knot>:<index>\<close> contains no colon and the
  identifier was observed, its total is the observed count and its percentage is computed
  with the number of choices of the knot as the denominator, which is at least 1.
\<close>

lemma choice_percentage_colon_free:
  assumes "CHR '':'' \<notin> set k"
    and "choice_id = k @ '':'' @ str_int i"
    and "choice_id \<in> set ids"
    and "0 < observed_count entries choice_id"
  shows "\<exists>res. compute_choice_stats entries ids = Inr res \<and>
           map_of res choice_id =
             Some \<lparr>total = observed_count entries choice_id,
                   percentage = percent (observed_count entries choice_id)
                                  (knot_total_count entries k)\<rparr> \<and>
           1 \<le> knot_total_count entries k"
proof -
  have q: "query_knot choice_id = k"
    unfolding assms(2) using assms(1) by (rule query_knot_key)
  from observed_le_knot_total [of entries k i] assms(4)
  have pos: "0 < knot_total_count entries k" by (simp add: assms(2))
  then have "denominator_of entries choice_id = knot_total_count entries k"
    by (simp add: denominator_of_def q)
  with assms(4) pos stat_in_result [OF assms(3), of entries] show ?thesis
    by (simp add: stat_of_def)
qed

text \<open>
  The example of the specification: counts 3 and 1 on knot \<^verbatim>\<open>k\<close> give 75 and 25.
\<close>

lemma three_one_example:
  "compute_choice_stats three_one_log [''k:0'', ''k:1''] =
     Inr [(''k:0'', \<lparr>total = 3, percentage = 75\<rparr>), (''k:1'', \<lparr>total = 1, percentage = 25\<rparr>)]"
  by code_simp

text \<open>
  Claim C2 says that the percentage of an observed identifier is
  \<^verbatim>\<open>round(observed_count / knot_total_count * 100)\<close>, with the number of choices of its knot as
  the denominator. The loop keys \<^verbatim>\<open>knot_totals\<close> by the whole knot and builds the
  identifier as \<^verbatim>\<open>f"{knot}:{idx}"\<close>, but the query reads the knot back with
  \<^verbatim>\<open>choice_id.split(":")[0]\<close>. On two choices of index 0 of the knot \<^verbatim>\<open>a:b\<close>, the identifier
  \<^verbatim>\<open>a:b:0\<close> is observed twice among the two choices of its knot, so that the percentage
  should be 100; the denominator is looked up under \<^verbatim>\<open>a\<close>, is not found, and the percentage
  returned is 200.
\<close>

theorem colon_knot_percentage_divergence:
  "compute_choice_stats colon_log [''a:b:0''] =
     Inr [(''a:b:0'', \<lparr>total = 2, percentage = 200\<rparr>)] \<and>
   observed_count colon_log ''a:b:0'' = 2 \<and>
   knot_total_count colon_log ''a:b'' = 2 \<and>
   percentage_of 2 2 = Inr 100"
  by code_simp

text \<open>
  Claim C8. A requested identifier that no choice entry produced has the result
  \<^verbatim>\<open>{total: 0, percentage: 0}\<close>, and \<^verbatim>\<open>compute_choice_stats\<close> returns without error; an
  identifier without colon is never produced, since every identifier of a choice entry
  has the form \<^verbatim>\<open><knot>:<index>\<close>.
\<close>

theorem unobserved_choice_is_zero:
  assumes "choice_id \<in> set ids"
  shows "(CHR '':'' \<notin> set choice_id \<longrightarrow> observed_count entries choice_id = 0) \<and>
         (observed_count entries choice_id = 0 \<longrightarrow>
            (\<exists>res. compute_choice_stats entries ids = Inr res \<and>
               map_of res choice_id = Some \<lparr>total = 0, percentage = 0\<rparr>))"
  using stat_in_result [OF assms, of entries] observed_zero_without_colon [of choice_id entries]
  by (auto simp: stat_of_def)

text \<open>
  The bare identifier \<^verbatim>\<open>intro\<close> on the example log.
\<close>

theorem unobserved_choice_is_zero_witness:
  "''intro'' \<in> set [''intro:7'', ''intro''] \<and> CHR '':'' \<notin> set ''intro'' \<and>
   observed_count example_log ''intro'' = 0 \<and>
   (\<exists>res. compute_choice_stats example_log [''intro:7'', ''intro''] = Inr res \<and>
      map_of res ''intro'' = Some \<lparr>total = 0, percentage = 0\<rparr>)"
proof -
  have m: "''intro'' \<in> set [''intro:7'', ''intro'']" by simp
  have c: "CHR '':'' \<notin> set ''intro''" by simp
  from unobserved_choice_is_zero [OF m, of example_log] c m show ?thesis by blast
qed

text \<open>
  Claim C9. The knot under which the denominator is looked up is the part of the requested
  identifier before its first colon. When the identifier was observed and no choice entry
  has that part as its knot, the lookup misses, the denominator is 1, and the percentage
  is 100 times the observed count: more than 100 as soon as the identifier was observed
  twice. (The bound on the count keeps the float arithmetic exact.)
\<close>

theorem first_colon_denominator_miss:
  assumes "choice_id \<in> set ids"
    and "0 < observed_count entries choice_id"
    and "knot_total_count entries (query_knot choice_id) = 0"
    and "100 * observed_count entries choice_id < 2 ^ 53"
  shows "query_knot choice_id = takeWhile (\<lambda>c. c \<noteq> CHR '':'') choice_id \<and>
         (\<exists>res st. compute_choice_stats entries ids = Inr res \<and>
            map_of res choice_id = Some st \<and>
            total st = observed_count entries choice_id \<and>
            percentage st = 100 * observed_count entries choice_id \<and>
            (1 < observed_count entries choice_id \<longrightarrow> 100 < percentage st))"
proof -
  from assms(3) have "denominator_of entries choice_id = 1"
    by (simp add: denominator_of_def)
  with assms(2) have "stat_of entries choice_id =
      \<lparr>total = observed_count entries choice_id,
       percentage = 100 * observed_count entries choice_id\<rparr>"
    by (simp add: stat_of_def percent_denominator_one [OF assms(2) assms(4)])
  with stat_in_result [OF assms(1), of entries] show ?thesis
    by (auto simp: query_knot_takeWhile)
qed

text \<open>
  The knot \<^verbatim>\<open>a:b\<close> with index 0 chosen twice, queried as \<^verbatim>\<open>a:b:0\<close>: the percentage is 200.
\<close>

theorem first_colon_denominator_miss_witness:
  "''a:b:0'' \<in> set [''a:b:0''] \<and> 0 < observed_count colon_log ''a:b:0'' \<and>
   knot_total_count colon_log (query_knot ''a:b:0'') = 0 \<and>
   100 * observed_count colon_log ''a:b:0'' < 2 ^ 53 \<and>
   1 < observed_count colon_log ''a:b:0'' \<and>
   query_knot ''a:b:0'' = ''a'' \<and>
   (\<exists>res st. compute_choice_stats colon_log [''a:b:0''] = Inr res \<and>
      map_of res ''a:b:0'' = Some st \<and> total st = 2 \<and> percentage st = 200 \<and>
      100 < percentage st)"
proof -
  have m: "''a:b:0'' \<in> set [''a:b:0'']" by simp
  have n: "observed_count colon_log ''a:b:0'' = 2" by code_simp
  have k: "knot_total_count colon_log (query_knot ''a:b:0'') = 0" by code_simp
  have q: "query_knot ''a:b:0'' = ''a''" by code_simp
  have 1: "0 < observed_count colon_log ''a:b:0''" by (simp add: n)
  have 2: "100 * observed_count colon_log ''a:b:0'' < 2 ^ 53" by (simp add: n)
  from first_colon_denominator_miss [OF m 1 k 2] m 1 k 2 q show ?thesis
    by (auto simp: n)
qed




section \<open>Properties of the float model\<close>

text \<open>
  The exponent computed by \<open>binade\<close> is the one of the binade of its argument, so that
  \<open>to_float\<close> rounds to a multiple of the unit in the last place of a 53-bit significand.
\<close>

lemma bit_len_nonneg: "0 \<le> bit_len p"
  by (induction p rule: bit_len.induct) (subst bit_len.simps, simp)

lemma bit_len_pos: "0 < p \<Longrightarrow> 0 < bit_len p"
  using bit_len_nonneg [of "p div 2"] by (subst bit_len.simps) simp

lemma bit_len_bounds:
  "0 < p \<Longrightarrow> 2 ^ nat (bit_len p - 1) \<le> p \<and> p < 2 ^ nat (bit_len p)"
proof (induction p rule: bit_len.induct)
  case (1 n)
  show ?case
  proof (cases "n = 1")
    case True
    then show ?thesis by (simp add: bit_len_one)
  next
    case False
    with "1.prems" have h: "0 < n div 2" by simp
    from "1.prems" have n: "\<not> n \<le> 0" by simp
    from "1.IH" [OF n h]
    have lo: "2 ^ nat (bit_len (n div 2) - 1) \<le> n div 2"
      and hi: "n div 2 < 2 ^ nat (bit_len (n div 2))" by simp_all
    have bl: "bit_len n = 1 + bit_len (n div 2)"
      using n by (subst bit_len.simps) simp
    from bit_len_pos [OF h] have s: "nat (bit_len (n div 2)) = Suc (nat (bit_len (n div 2) - 1))"
      by simp
    have "2 ^ nat (bit_len n - 1) \<le> n"
      unfolding bl using lo by (simp add: s)
    moreover have "n < 2 ^ nat (bit_len n)"
      unfolding bl using hi bit_len_nonneg [of "n div 2"] by (simp add: nat_add_distrib)
    ultimately show ?thesis ..
  qed
qed

lemma binade_bounds:
  assumes "0 < x"
  shows "2 powi binade x \<le> x \<and> x < 2 powi (binade x + 1)"
proof -
  obtain p q where pq: "quotient_of x = (p, q)" by (cases "quotient_of x")
  then have q: "0 < q" by (rule quotient_of_denom_pos)
  from pq have x: "x = of_int p / of_int q" by (rule quotient_of_div)
  with assms q have p: "0 < p" by (simp add: zero_less_divide_iff)
  define d where "d = bit_len p - bit_len q"
  from bit_len_bounds [OF p] have p1: "(2::rat) ^ nat (bit_len p - 1) \<le> of_int p"
    and p2: "of_int p < (2::rat) ^ nat (bit_len p)"
    by (metis of_int_le_iff of_int_numeral of_int_power,
        metis of_int_less_iff of_int_numeral of_int_power)
  from bit_len_bounds [OF q] have q1: "(2::rat) ^ nat (bit_len q - 1) \<le> of_int q"
    and q2: "of_int q < (2::rat) ^ nat (bit_len q)"
    by (metis of_int_le_iff of_int_numeral of_int_power,
        metis of_int_less_iff of_int_numeral of_int_power)
  have pw: "(2::rat) ^ nat k = 2 powi k" if "0 \<le> k" for k
    using that by (simp add: power_int_def)
  have P1: "(2::rat) powi (bit_len p - 1) \<le> of_int p"
    and P2: "of_int p < (2::rat) powi (bit_len p)"
    and Q1: "(2::rat) powi (bit_len q - 1) \<le> of_int q"
    and Q2: "of_int q < (2::rat) powi (bit_len q)"
    using p1 p2 q1 q2 bit_len_pos [OF p] bit_len_pos [OF q] by (simp_all add: pw)
  have qpos: "(0::rat) < of_int q" using q by simp
  have hi: "x < 2 powi (d + 1)"
  proof -
    have "of_int p < (2::rat) powi (bit_len p)" by (rule P2)
    also have "\<dots> = 2 powi (d + 1) * 2 powi (bit_len q - 1)"
      by (simp add: d_def power_int_add [symmetric])
    also have "\<dots> \<le> 2 powi (d + 1) * of_int q"
      using Q1 by (intro mult_left_mono) simp_all
    finally show ?thesis
      using qpos by (simp add: x pos_divide_less_eq)
  qed
  have lo: "2 powi (d - 1) < x"
  proof -
    have "2 powi (d - 1) * of_int q < (2::rat) powi (d - 1) * 2 powi (bit_len q)"
      using Q2 by (intro mult_strict_left_mono) simp_all
    also have "\<dots> = 2 powi (bit_len p - 1)"
      by (simp add: d_def power_int_add [symmetric])
    also have "\<dots> \<le> of_int p" by (rule P1)
    finally show ?thesis
      using qpos by (simp add: x pos_less_divide_eq)
  qed
  show ?thesis
  proof (cases "2 powi d \<le> x")
    case True
    then have "binade x = d" by (simp add: binade_def pq d_def)
    with True hi show ?thesis by simp
  next
    case False
    then have "binade x = d - 1" by (simp add: binade_def pq d_def)
    with False lo show ?thesis by simp
  qed
qed

section \<open>The example of the specification\<close>

text \<open>The end-to-end example of the specification.\<close>

lemma example_path_stats:
  "compute_path_stats example_log =
     \<lparr>totalChoices = 3, uniqueSessions = 2,
      pathDistribution =
        [(''intro'', [(''0'', \<lparr>cell_count = 2, cell_text = ''Go left''\<rparr>),
                      (''1'', \<lparr>cell_count = 1, cell_text = ''Go right''\<rparr>)])]\<rparr>"
  by (simp add: compute_path_stats_def example_log_def is_choice_def path_step_def
      by_path_step_def path_of_def index_of_def text_of_def payload_or_empty_def
      dict_of_items_def str_int_def digits.simps digit_char_def session_of_def)

lemma example_top_paths: "top_paths example_log 10 = [\<lparr>path = ''intro'', count = 3\<rparr>]"
  by (simp add: top_paths_def example_log_def is_choice_def count_step_def path_of_def
      payload_or_empty_def sorted_reverse_def slice_to_def Let_def)

lemma example_choice_stats:
  "compute_choice_stats example_log [''intro:0'', ''intro:1'', ''intro:2''] =
     Inr [(''intro:0'', \<lparr>total = 2, percentage = 67\<rparr>),
          (''intro:1'', \<lparr>total = 1, percentage = 33\<rparr>),
          (''intro:2'', \<lparr>total = 0, percentage = 0\<rparr>)]"
  by code_simp

end
